theory Spec2Isabelle
  imports Main "HOL-Library.Sublist" "HOL-Library.AList"
begin

section \<open>Strings\<close>

text \<open>
  JavaScript strings are modelled as \<^typ>\<open>string\<close>: sequences of code units in the
  range 0..255.  The functions below are the \<^verbatim>\<open>String.prototype\<close> methods the
  storage manager calls.
\<close>

definition INDEX_MARKER_START :: string where
  "INDEX_MARKER_START = ''===INDEX_START===''"

definition INDEX_MARKER_END :: string where
  "INDEX_MARKER_END = ''===INDEX_END===''"

definition DATA_MARKER_START :: string where
  "DATA_MARKER_START = ''===DATA_START===''"

text \<open>\<^verbatim>\<open>s.indexOf(m)\<close>: position of the first occurrence, \<open>None\<close> for \<^verbatim>\<open>-1\<close>.\<close>

fun indexOf :: "string \<Rightarrow> string \<Rightarrow> nat option" where
  "indexOf [] m = (if m = [] then Some 0 else None)"
| "indexOf (c # cs) m =
    (if prefix m (c # cs) then Some 0 else map_option Suc (indexOf cs m))"

definition str_includes :: "string \<Rightarrow> string \<Rightarrow> bool" where
  "str_includes s m \<longleftrightarrow> indexOf s m \<noteq> None"

text \<open>\<^verbatim>\<open>s.substring(a, b)\<close> (the arguments are swapped when \<open>a > b\<close>) and \<^verbatim>\<open>s.substring(a)\<close>.\<close>

definition substring :: "string \<Rightarrow> nat \<Rightarrow> nat \<Rightarrow> string" where
  "substring s a b = (if a \<le> b then take (b - a) (drop a s) else take (a - b) (drop b s))"

definition substring_from :: "string \<Rightarrow> nat \<Rightarrow> string" where
  "substring_from s a = drop a s"

text \<open>White space of \<^verbatim>\<open>trim\<close> and of the regular expression class \<^verbatim>\<open>\s\<close> below code unit 256.\<close>

definition is_js_space :: "char \<Rightarrow> bool" where
  "is_js_space c \<longleftrightarrow> (of_char c :: nat) \<in> {9, 10, 11, 12, 13, 32, 160}"

definition trim :: "string \<Rightarrow> string" where
  "trim s = rev (dropWhile is_js_space (rev (dropWhile is_js_space s)))"

text \<open>\<^verbatim>\<open>s.split("\n")\<close> and \<^verbatim>\<open>lines.join("\n")\<close>.\<close>

fun split_nl :: "string \<Rightarrow> string list" where
  "split_nl [] = [[]]"
| "split_nl (c # cs) =
    (if c = CHR 0x0A then [] # split_nl cs
     else (case split_nl cs of [] \<Rightarrow> [[c]] | l # ls \<Rightarrow> (c # l) # ls))"

fun join_nl :: "string list \<Rightarrow> string" where
  "join_nl [] = []"
| "join_nl [l] = l"
| "join_nl (l # m # ls) = l @ CHR 0x0A # join_nl (m # ls)"

text \<open>\<^verbatim>\<open>toLowerCase\<close> on code units below 256.\<close>

definition lower_char :: "char \<Rightarrow> char" where
  "lower_char c = (let n = (of_char c :: nat) in
     if (65 \<le> n \<and> n \<le> 90) \<or> (192 \<le> n \<and> n \<le> 222 \<and> n \<noteq> 215)
     then char_of (n + 32) else c)"

definition toLowerCase :: "string \<Rightarrow> string" where
  "toLowerCase s = map lower_char s"

text \<open>\<^verbatim>\<open>s.split(/\s+/)\<close>: the pieces between maximal runs of white space; the empty
  string gives one empty piece.\<close>

fun split_ws :: "string \<Rightarrow> string list" where
  "split_ws [] = [[]]"
| "split_ws (c # cs) =
    (if is_js_space c then
       (if cs \<noteq> [] \<and> is_js_space (hd cs) then split_ws cs else [] # split_ws cs)
     else (case split_ws cs of [] \<Rightarrow> [[c]] | l # ls \<Rightarrow> (c # l) # ls))"

text \<open>Decimal rendering of a non-negative integer, as \<^verbatim>\<open>JSON.stringify\<close> prints a count.\<close>

function digits_of :: "nat \<Rightarrow> string" where
  "digits_of n = (if n < 10 then [char_of (48 + n)]
     else digits_of (n div 10) @ [char_of (48 + n mod 10)])"
  by pat_completeness auto
termination
  by (relation "measure id") auto

declare digits_of.simps [simp del]

section \<open>JSON\<close>

text \<open>
  \<^verbatim>\<open>JSON.parse\<close> and \<^verbatim>\<open>JSON.stringify\<close> are built into the language; the
  model below follows the JSON grammar.  A parsed string is a list of UTF-16 code units
  (an escape \<^verbatim>\<open>\uXXXX\<close> may denote a unit above 255), a number keeps its literal.
  The parser is a scanner (one step per character) followed by a stack automaton (one
  step per token); a repeated key of an object overwrites the earlier value and keeps its
  place, as in JavaScript.
\<close>

type_synonym ustring = "nat list"

datatype 's json = JNull | JBool bool | JNum string | JStr 's
  | JArr "'s json list" | JObj "('s \<times> 's json) list"

definition ustr :: "string \<Rightarrow> ustring" where
  "ustr s = map of_char s"

definition of_ustr :: "ustring \<Rightarrow> string option" where
  "of_ustr us = (if list_all (\<lambda>n. n < 256) us then Some (map char_of us) else None)"

datatype token = TLBrace | TRBrace | TLBrack | TRBrack | TColon | TComma
  | TStr ustring | TNum string | TTrue | TFalse | TNull

datatype nmode = NMinus | NZero | NInt | NDot | NFrac | NE | NESign | NExp

datatype literal = LTrue | LFalse | LNull

fun literal_text :: "literal \<Rightarrow> string" where
  "literal_text LTrue = ''true''"
| "literal_text LFalse = ''false''"
| "literal_text LNull = ''null''"

fun literal_token :: "literal \<Rightarrow> token" where
  "literal_token LTrue = TTrue"
| "literal_token LFalse = TFalse"
| "literal_token LNull = TNull"

text \<open>The modes of the scanner: between tokens, inside a string (after a backslash, inside
  a \<^verbatim>\<open>\u\<close> escape), inside a number, and inside a literal after its first \<open>i\<close>
  characters.\<close>

datatype lmode = MIdle | MStr ustring | MEsc ustring | MUni ustring "nat list"
  | MNum nmode string | MLit literal nat

datatype lstate = LFail | LSt "token list" lmode

definition is_json_ws :: "char \<Rightarrow> bool" where
  "is_json_ws c \<longleftrightarrow> c = CHR 0x20 \<or> c = CHR 0x09 \<or> c = CHR 0x0A \<or> c = CHR 0x0D"

definition is_digit :: "char \<Rightarrow> bool" where
  "is_digit c \<longleftrightarrow> (48::nat) \<le> of_char c \<and> of_char c \<le> (57::nat)"

definition hex_val :: "char \<Rightarrow> nat option" where
  "hex_val c = (let n = (of_char c :: nat) in
     if 48 \<le> n \<and> n \<le> 57 then Some (n - 48)
     else if 65 \<le> n \<and> n \<le> 70 then Some (n - 55)
     else if 97 \<le> n \<and> n \<le> 102 then Some (n - 87)
     else None)"

fun num_step :: "nmode \<Rightarrow> char \<Rightarrow> nmode option" where
  "num_step NMinus c = (if c = CHR ''0'' then Some NZero else if is_digit c then Some NInt else None)"
| "num_step NZero c = (if c = CHR ''.'' then Some NDot
     else if c = CHR ''e'' \<or> c = CHR ''E'' then Some NE else None)"
| "num_step NInt c = (if is_digit c then Some NInt else if c = CHR ''.'' then Some NDot
     else if c = CHR ''e'' \<or> c = CHR ''E'' then Some NE else None)"
| "num_step NDot c = (if is_digit c then Some NFrac else None)"
| "num_step NFrac c = (if is_digit c then Some NFrac
     else if c = CHR ''e'' \<or> c = CHR ''E'' then Some NE else None)"
| "num_step NE c = (if c = CHR ''+'' \<or> c = CHR ''-'' then Some NESign
     else if is_digit c then Some NExp else None)"
| "num_step NESign c = (if is_digit c then Some NExp else None)"
| "num_step NExp c = (if is_digit c then Some NExp else None)"

fun num_final :: "nmode \<Rightarrow> bool" where
  "num_final NZero = True"
| "num_final NInt = True"
| "num_final NFrac = True"
| "num_final NExp = True"
| "num_final _ = False"

definition lex_idle :: "token list \<Rightarrow> char \<Rightarrow> lstate" where
  "lex_idle ts c =
    (if is_json_ws c then LSt ts MIdle
     else if c = CHR ''{'' then LSt (ts @ [TLBrace]) MIdle
     else if c = CHR ''}'' then LSt (ts @ [TRBrace]) MIdle
     else if c = CHR ''['' then LSt (ts @ [TLBrack]) MIdle
     else if c = CHR '']'' then LSt (ts @ [TRBrack]) MIdle
     else if c = CHR '':'' then LSt (ts @ [TColon]) MIdle
     else if c = CHR '','' then LSt (ts @ [TComma]) MIdle
     else if c = CHR 0x22 then LSt ts (MStr [])
     else if c = CHR ''-'' then LSt ts (MNum NMinus [c])
     else if c = CHR ''0'' then LSt ts (MNum NZero [c])
     else if is_digit c then LSt ts (MNum NInt [c])
     else if c = CHR ''t'' then LSt ts (MLit LTrue 1)
     else if c = CHR ''f'' then LSt ts (MLit LFalse 1)
     else if c = CHR ''n'' then LSt ts (MLit LNull 1)
     else LFail)"

fun lex_step :: "lstate \<Rightarrow> char \<Rightarrow> lstate" where
  "lex_step LFail c = LFail"
| "lex_step (LSt ts MIdle) c = lex_idle ts c"
| "lex_step (LSt ts (MStr acc)) c =
    (if c = CHR 0x22 then LSt (ts @ [TStr acc]) MIdle
     else if c = CHR 0x5C then LSt ts (MEsc acc)
     else if (of_char c :: nat) < 32 then LFail
     else LSt ts (MStr (acc @ [of_char c])))"
| "lex_step (LSt ts (MEsc acc)) c =
    (if c = CHR 0x22 then LSt ts (MStr (acc @ [34]))
     else if c = CHR 0x5C then LSt ts (MStr (acc @ [92]))
     else if c = CHR ''/'' then LSt ts (MStr (acc @ [47]))
     else if c = CHR ''b'' then LSt ts (MStr (acc @ [8]))
     else if c = CHR ''f'' then LSt ts (MStr (acc @ [12]))
     else if c = CHR ''n'' then LSt ts (MStr (acc @ [10]))
     else if c = CHR ''r'' then LSt ts (MStr (acc @ [13]))
     else if c = CHR ''t'' then LSt ts (MStr (acc @ [9]))
     else if c = CHR ''u'' then LSt ts (MUni acc [])
     else LFail)"
| "lex_step (LSt ts (MUni acc hs)) c =
    (case hex_val c of
       None \<Rightarrow> LFail
     | Some h \<Rightarrow>
        if length hs = 3 then LSt ts (MStr (acc @ [foldl (\<lambda>a d. 16 * a + d) 0 (hs @ [h])]))
        else LSt ts (MUni acc (hs @ [h])))"
| "lex_step (LSt ts (MNum m lit)) c =
    (case num_step m c of
       Some m' \<Rightarrow> LSt ts (MNum m' (lit @ [c]))
     | None \<Rightarrow> if num_final m then lex_idle (ts @ [TNum lit]) c else LFail)"
| "lex_step (LSt ts (MLit k i)) c =
    (if i < length (literal_text k) \<and> c = literal_text k ! i then
       (if Suc i = length (literal_text k) then LSt (ts @ [literal_token k]) MIdle
        else LSt ts (MLit k (Suc i)))
     else LFail)"

fun lex_finish :: "lstate \<Rightarrow> token list option" where
  "lex_finish (LSt ts MIdle) = Some ts"
| "lex_finish (LSt ts (MNum m lit)) = (if num_final m then Some (ts @ [TNum lit]) else None)"
| "lex_finish _ = None"

definition lex :: "string \<Rightarrow> token list option" where
  "lex s = lex_finish (foldl lex_step (LSt [] MIdle) s)"

datatype frame = FArr0 | FArrV "ustring json list" | FArrC "ustring json list"
  | FObj0 | FObjK "(ustring \<times> ustring json) list" ustring
  | FObjC "(ustring \<times> ustring json) list" ustring
  | FObjV "(ustring \<times> ustring json) list" | FObjN "(ustring \<times> ustring json) list"

datatype pstate = PFail | PDone "ustring json" | PSt "frame list"

fun deliver :: "ustring json \<Rightarrow> frame list \<Rightarrow> pstate" where
  "deliver v [] = PDone v"
| "deliver v (FArr0 # st) = PSt (FArrV [v] # st)"
| "deliver v (FArrC vs # st) = PSt (FArrV (vs @ [v]) # st)"
| "deliver v (FObjC kvs k # st) = PSt (FObjV (AList.update k v kvs) # st)"
| "deliver v _ = PFail"

fun expects_value :: "frame list \<Rightarrow> bool" where
  "expects_value [] = True"
| "expects_value (FArr0 # st) = True"
| "expects_value (FArrC vs # st) = True"
| "expects_value (FObjC kvs k # st) = True"
| "expects_value _ = False"

fun pstep :: "pstate \<Rightarrow> token \<Rightarrow> pstate" where
  "pstep (PSt st) tok =
    (case tok of
       TStr s \<Rightarrow>
         (case st of
            FObj0 # r \<Rightarrow> PSt (FObjK [] s # r)
          | FObjN kvs # r \<Rightarrow> PSt (FObjK kvs s # r)
          | _ \<Rightarrow> deliver (JStr s) st)
     | TNum n \<Rightarrow> deliver (JNum n) st
     | TTrue \<Rightarrow> deliver (JBool True) st
     | TFalse \<Rightarrow> deliver (JBool False) st
     | TNull \<Rightarrow> deliver JNull st
     | TLBrack \<Rightarrow> (if expects_value st then PSt (FArr0 # st) else PFail)
     | TLBrace \<Rightarrow> (if expects_value st then PSt (FObj0 # st) else PFail)
     | TRBrack \<Rightarrow>
         (case st of
            FArr0 # r \<Rightarrow> deliver (JArr []) r
          | FArrV vs # r \<Rightarrow> deliver (JArr vs) r
          | _ \<Rightarrow> PFail)
     | TRBrace \<Rightarrow>
         (case st of
            FObj0 # r \<Rightarrow> deliver (JObj []) r
          | FObjV kvs # r \<Rightarrow> deliver (JObj kvs) r
          | _ \<Rightarrow> PFail)
     | TComma \<Rightarrow>
         (case st of
            FArrV vs # r \<Rightarrow> PSt (FArrC vs # r)
          | FObjV kvs # r \<Rightarrow> PSt (FObjN kvs # r)
          | _ \<Rightarrow> PFail)
     | TColon \<Rightarrow>
         (case st of
            FObjK kvs k # r \<Rightarrow> PSt (FObjC kvs k # r)
          | _ \<Rightarrow> PFail))"
| "pstep PFail tok = PFail"
| "pstep (PDone v) tok = PFail"

definition JSON_parse :: "string \<Rightarrow> ustring json option" where
  "JSON_parse s = (case lex s of None \<Rightarrow> None
     | Some ts \<Rightarrow> (case foldl pstep (PSt []) ts of PDone v \<Rightarrow> Some v | _ \<Rightarrow> None))"

text \<open>\<^verbatim>\<open>JSON.stringify(x)\<close>: the compact rendering.\<close>

definition hex_digit :: "nat \<Rightarrow> char" where
  "hex_digit n = (if n < 10 then char_of (48 + n) else char_of (87 + n))"

definition esc_char :: "char \<Rightarrow> string" where
  "esc_char c = (let n = (of_char c :: nat) in
     if n = 34 then [CHR 0x5C, CHR 0x22]
     else if n = 92 then [CHR 0x5C, CHR 0x5C]
     else if n = 8 then [CHR 0x5C, CHR ''b'']
     else if n = 12 then [CHR 0x5C, CHR ''f'']
     else if n = 10 then [CHR 0x5C, CHR ''n'']
     else if n = 13 then [CHR 0x5C, CHR ''r'']
     else if n = 9 then [CHR 0x5C, CHR ''t'']
     else if n < 32 then
       [CHR 0x5C, CHR ''u'', CHR ''0'', CHR ''0'', hex_digit (n div 16), hex_digit (n mod 16)]
     else [c])"

definition quote :: "string \<Rightarrow> string" where
  "quote s = CHR 0x22 # concat (map esc_char s) @ [CHR 0x22]"

fun sep_by :: "'a list \<Rightarrow> 'a list list \<Rightarrow> 'a list" where
  "sep_by s [] = []"
| "sep_by s [x] = x"
| "sep_by s (x # y # ys) = x @ s @ sep_by s (y # ys)"

definition member_text :: "string \<times> string \<Rightarrow> string" where
  "member_text kv = quote (fst kv) @ '':'' @ snd kv"

primrec stringify :: "string json \<Rightarrow> string" where
  "stringify JNull = ''null''"
| "stringify (JBool b) = (if b then ''true'' else ''false'')"
| "stringify (JNum l) = l"
| "stringify (JStr s) = quote s"
| "stringify (JArr vs) = ''['' @ sep_by '','' (map stringify vs) @ '']''"
| "stringify (JObj kvs) =
     ''{'' @ sep_by '','' (map member_text (map (map_prod id stringify) kvs)) @ ''}''"

text \<open>\<^verbatim>\<open>JSON.stringify(x, null, 2)\<close>: the indented rendering, as its list of lines.  The
  first line of \<open>pretty v n\<close> carries no indentation (its context supplies it), the
  following lines are indented for a value that sits at depth \<open>n\<close>.\<close>

definition spaces :: "nat \<Rightarrow> string" where
  "spaces n = replicate n CHR 0x20"

definition indent :: "nat \<Rightarrow> string list \<Rightarrow> string list" where
  "indent n ls = (case ls of [] \<Rightarrow> [] | l # ls' \<Rightarrow> (spaces n @ l) # ls')"

definition add_comma :: "string list \<Rightarrow> string list" where
  "add_comma ls = (if ls = [] then [] else butlast ls @ [last ls @ '',''])"

fun comma_lines :: "string list list \<Rightarrow> string list" where
  "comma_lines [] = []"
| "comma_lines [ls] = ls"
| "comma_lines (ls # ms # r) = add_comma ls @ comma_lines (ms # r)"

definition member_lines :: "nat \<Rightarrow> string \<times> (nat \<Rightarrow> string list) \<Rightarrow> string list" where
  "member_lines n kv =
     (case snd kv n of [] \<Rightarrow> [] | l # ls \<Rightarrow> (spaces n @ quote (fst kv) @ '': '' @ l) # ls)"

primrec pretty :: "string json \<Rightarrow> nat \<Rightarrow> string list" where
  "pretty JNull n = [''null'']"
| "pretty (JBool b) n = [if b then ''true'' else ''false'']"
| "pretty (JNum l) n = [l]"
| "pretty (JStr s) n = [quote s]"
| "pretty (JArr vs) n =
     (if vs = [] then [''[]'']
      else ''['' # comma_lines (map (\<lambda>f. indent (n + 2) (f (n + 2))) (map pretty vs))
             @ [spaces n @ '']''])"
| "pretty (JObj kvs) n =
     (if kvs = [] then [''{}'']
      else ''{'' # comma_lines (map (member_lines (n + 2)) (map (map_prod id pretty) kvs))
             @ [spaces n @ ''}''])"

definition stringify_pretty :: "string json \<Rightarrow> string" where
  "stringify_pretty v = join_nl (pretty v 0)"

section \<open>Data model\<close>

record Entity =
  name :: string
  entityType :: string
  observations :: "string list"

text \<open>The fields \<^verbatim>\<open>from\<close> and \<^verbatim>\<open>to\<close> of a relation are \<open>rel_from\<close> and \<open>rel_to\<close> here.\<close>

record Relation =
  rel_from :: string
  rel_to :: string
  relationType :: string

record KnowledgeGraph =
  entities :: "Entity list"
  relations :: "Relation list"

record IndexMetadata =
  version :: string
  entityCount :: nat
  relationCount :: nat
  lastUpdated :: string
  compressionEnabled :: bool

text \<open>An entry of \<open>relationsFrom\<close> is the pair (relationType, toEntity), an entry of
  \<open>relationsTo\<close> the pair (relationType, fromEntity).\<close>

record EntityIndex =
  ei_name :: string
  ei_entityType :: string
  observationCount :: nat
  relationsFrom :: "(string \<times> string) list"
  relationsTo :: "(string \<times> string) list"
  filePosition :: nat

text \<open>A \<^verbatim>\<open>Map\<close> is an association list in insertion order with distinct keys, a
  \<^verbatim>\<open>Set\<close> of strings a list in insertion order.  The sets of \<open>relationIndices\<close> hold
  objects, which a \<^verbatim>\<open>Set\<close> compares by identity: every \<^verbatim>\<open>add\<close> appends, so
  such a set is a list of (from, to) pairs that may repeat.\<close>

record IndexStructure =
  metadata :: IndexMetadata
  entityIndices :: "(string \<times> EntityIndex) list"
  typeIndices :: "(string \<times> string list) list"
  relationIndices :: "(string \<times> (string \<times> string) list) list"

definition empty_graph :: KnowledgeGraph where
  "empty_graph = \<lparr>entities = [], relations = []\<rparr>"

subsection \<open>Objects written to the file\<close>

definition entity_json :: "Entity \<Rightarrow> string json" where
  "entity_json e = JObj
     [(''type'', JStr ''entity''), (''name'', JStr (name e)),
      (''entityType'', JStr (entityType e)),
      (''observations'', JArr (map JStr (observations e)))]"

definition relation_json :: "Relation \<Rightarrow> string json" where
  "relation_json r = JObj
     [(''type'', JStr ''relation''), (''from'', JStr (rel_from r)),
      (''to'', JStr (rel_to r)), (''relationType'', JStr (relationType r))]"

definition metadata_json :: "IndexMetadata \<Rightarrow> string json" where
  "metadata_json m = JObj
     [(''version'', JStr (version m)), (''entityCount'', JNum (digits_of (entityCount m))),
      (''relationCount'', JNum (digits_of (relationCount m))),
      (''lastUpdated'', JStr (lastUpdated m)),
      (''compressionEnabled'', JBool (compressionEnabled m))]"

definition relfrom_json :: "string \<times> string \<Rightarrow> string json" where
  "relfrom_json p = JObj [(''relationType'', JStr (fst p)), (''toEntity'', JStr (snd p))]"

definition relto_json :: "string \<times> string \<Rightarrow> string json" where
  "relto_json p = JObj [(''relationType'', JStr (fst p)), (''fromEntity'', JStr (snd p))]"

definition entityIndex_json :: "EntityIndex \<Rightarrow> string json" where
  "entityIndex_json ei = JObj
     [(''name'', JStr (ei_name ei)), (''entityType'', JStr (ei_entityType ei)),
      (''observationCount'', JNum (digits_of (observationCount ei))),
      (''relationsFrom'', JArr (map relfrom_json (relationsFrom ei))),
      (''relationsTo'', JArr (map relto_json (relationsTo ei))),
      (''filePosition'', JNum (digits_of (filePosition ei)))]"

definition pair_json :: "string \<times> string \<Rightarrow> string json" where
  "pair_json p = JObj [(''from'', JStr (fst p)), (''to'', JStr (snd p))]"

text \<open>\<open>serializableIndex\<close> of \<^verbatim>\<open>saveIndexAndData\<close>: maps as arrays of [key, value]
  pairs, sets as arrays.\<close>

definition index_json :: "IndexStructure \<Rightarrow> string json" where
  "index_json idx = JObj
     [(''metadata'', metadata_json (metadata idx)),
      (''entityIndices'',
         JArr (map (\<lambda>kv. JArr [JStr (fst kv), entityIndex_json (snd kv)]) (entityIndices idx))),
      (''typeIndices'',
         JArr (map (\<lambda>kv. JArr [JStr (fst kv), JArr (map JStr (snd kv))]) (typeIndices idx))),
      (''relationIndices'',
         JArr (map (\<lambda>kv. JArr [JStr (fst kv), JArr (map pair_json (snd kv))])
                 (relationIndices idx)))]"

subsection \<open>Objects read from the file\<close>

text \<open>
  The source casts a parsed object to its TypeScript type without a check
  (\<^verbatim>\<open>entity as Entity\<close>, \<^verbatim>\<open>metadata: parsedIndex.metadata\<close>).  The decoders below
  succeed exactly on the objects that have the declared shape: the declared keys, each
  once and no other, with values of the declared types (a count being a plain decimal
  literal, a string having all its code units below 256); the order of the keys is not
  kept.  On any other object they return \<open>None\<close>, and the operation that reads it
  ends with the result \<open>IllTyped\<close>: the object lies outside the typed data model, and
  nothing is stated about what the program does with it.
\<close>

definition nat_of_lit :: "string \<Rightarrow> nat option" where
  "nat_of_lit l =
     (if l \<noteq> [] \<and> list_all is_digit l \<and> (l = ''0'' \<or> hd l \<noteq> CHR ''0'')
      then Some (foldl (\<lambda>a c. 10 * a + (of_char c - 48)) 0 l) else None)"

fun decode_str :: "ustring json \<Rightarrow> string option" where
  "decode_str (JStr us) = of_ustr us"
| "decode_str _ = None"

fun decode_nat :: "ustring json \<Rightarrow> nat option" where
  "decode_nat (JNum l) = nat_of_lit l"
| "decode_nat _ = None"

fun decode_bool :: "ustring json \<Rightarrow> bool option" where
  "decode_bool (JBool b) = Some b"
| "decode_bool _ = None"

fun decode_list :: "(ustring json \<Rightarrow> 'a option) \<Rightarrow> ustring json \<Rightarrow> 'a list option" where
  "decode_list f (JArr vs) = those (map f vs)"
| "decode_list f _ = None"

definition field :: "(ustring \<times> ustring json) list \<Rightarrow> string \<Rightarrow> (ustring json \<Rightarrow> 'a option) \<Rightarrow> 'a option" where
  "field kvs k f = (case map_of kvs (ustr k) of None \<Rightarrow> None | Some v \<Rightarrow> f v)"

fun decode_obj :: "nat \<Rightarrow> ((ustring \<times> ustring json) list \<Rightarrow> 'a option) \<Rightarrow> ustring json \<Rightarrow> 'a option" where
  "decode_obj n f (JObj kvs) = (if length kvs = n then f kvs else None)"
| "decode_obj n f _ = None"

definition decode_entity :: "(ustring \<times> ustring json) list \<Rightarrow> Entity option" where
  "decode_entity kvs =
     (if length kvs \<noteq> 3 then None else
      case (field kvs ''name'' decode_str, field kvs ''entityType'' decode_str,
            field kvs ''observations'' (decode_list decode_str)) of
        (Some n, Some t, Some os) \<Rightarrow> Some \<lparr>name = n, entityType = t, observations = os\<rparr>
      | _ \<Rightarrow> None)"

definition decode_relation :: "(ustring \<times> ustring json) list \<Rightarrow> Relation option" where
  "decode_relation kvs =
     (if length kvs \<noteq> 3 then None else
      case (field kvs ''from'' decode_str, field kvs ''to'' decode_str,
            field kvs ''relationType'' decode_str) of
        (Some f, Some t, Some rt) \<Rightarrow> Some \<lparr>rel_from = f, rel_to = t, relationType = rt\<rparr>
      | _ \<Rightarrow> None)"

definition decode_metadata :: "(ustring \<times> ustring json) list \<Rightarrow> IndexMetadata option" where
  "decode_metadata kvs =
     (case (field kvs ''version'' decode_str, field kvs ''entityCount'' decode_nat,
            field kvs ''relationCount'' decode_nat, field kvs ''lastUpdated'' decode_str,
            field kvs ''compressionEnabled'' decode_bool) of
        (Some v, Some ec, Some rc, Some lu, Some ce) \<Rightarrow>
          Some \<lparr>version = v, entityCount = ec, relationCount = rc, lastUpdated = lu,
                compressionEnabled = ce\<rparr>
      | _ \<Rightarrow> None)"

definition decode_pair :: "string \<Rightarrow> string \<Rightarrow> (ustring \<times> ustring json) list \<Rightarrow> (string \<times> string) option" where
  "decode_pair k1 k2 kvs =
     (case (field kvs k1 decode_str, field kvs k2 decode_str) of
        (Some a, Some b) \<Rightarrow> Some (a, b)
      | _ \<Rightarrow> None)"

definition decode_entityIndex :: "(ustring \<times> ustring json) list \<Rightarrow> EntityIndex option" where
  "decode_entityIndex kvs =
     (case (field kvs ''name'' decode_str, field kvs ''entityType'' decode_str,
            field kvs ''observationCount'' decode_nat,
            field kvs ''relationsFrom''
              (decode_list (decode_obj 2 (decode_pair ''relationType'' ''toEntity''))),
            field kvs ''relationsTo''
              (decode_list (decode_obj 2 (decode_pair ''relationType'' ''fromEntity''))),
            field kvs ''filePosition'' decode_nat) of
        (Some n, Some t, Some oc, Some rf, Some rt, Some fp) \<Rightarrow>
          Some \<lparr>ei_name = n, ei_entityType = t, observationCount = oc, relationsFrom = rf,
                relationsTo = rt, filePosition = fp\<rparr>
      | _ \<Rightarrow> None)"

text \<open>\<^verbatim>\<open>new Set(array)\<close> keeps the first occurrence of each element.\<close>

fun remdups_first :: "'a list \<Rightarrow> 'a list" where
  "remdups_first [] = []"
| "remdups_first (x # xs) = x # remdups_first (filter (\<lambda>y. y \<noteq> x) xs)"

text \<open>An element \<^verbatim>\<open>[key, value]\<close> of one of the three arrays of the index payload.\<close>

fun decode_entry :: "(ustring json \<Rightarrow> 'a option) \<Rightarrow> ustring json \<Rightarrow> (string \<times> 'a) option" where
  "decode_entry f (JArr [k, v]) =
     (case (decode_str k, f v) of (Some k', Some v') \<Rightarrow> Some (k', v') | _ \<Rightarrow> None)"
| "decode_entry f _ = None"

text \<open>\<^verbatim>\<open>map.set(k, v)\<close> for each pair in turn, and \<^verbatim>\<open>new Set(array)\<close>.\<close>

definition map_of_entries :: "(string \<times> 'a) list \<Rightarrow> (string \<times> 'a) list" where
  "map_of_entries kvs = foldl (\<lambda>m kv. AList.update (fst kv) (snd kv) m) [] kvs"

definition decode_index :: "ustring json \<Rightarrow> IndexStructure option" where
  "decode_index j = decode_obj 4 (\<lambda>kvs.
     case (field kvs ''metadata'' (decode_obj 5 decode_metadata),
           field kvs ''entityIndices''
             (decode_list (decode_entry (decode_obj 6 decode_entityIndex))),
           field kvs ''typeIndices''
             (decode_list (decode_entry (decode_list decode_str))),
           field kvs ''relationIndices''
             (decode_list (decode_entry (decode_list (decode_obj 2 (decode_pair ''from'' ''to'')))))) of
       (Some m, Some ei, Some ti, Some ri) \<Rightarrow>
         Some \<lparr>metadata = m, entityIndices = map_of_entries ei,
               typeIndices = map_of_entries (map (\<lambda>kv. (fst kv, remdups_first (snd kv))) ti),
               relationIndices = map_of_entries ri\<rparr>
     | _ \<Rightarrow> None) j"

section \<open>The storage manager\<close>

text \<open>
  The state is the three fields of \<^verbatim>\<open>StorageManager\<close> together with what the class
  reaches through \<^verbatim>\<open>fs\<close> and \<^verbatim>\<open>Date\<close>: the files (path to content), the
  clock reading \<open>now\<close> that \<^verbatim>\<open>new Date().toISOString()\<close> returns, and \<open>disk_ok\<close>,
  which says whether \<^verbatim>\<open>fs.writeFile\<close> succeeds.  Reading fails exactly on a missing
  file.  The environment may change \<open>files\<close>, \<open>now\<close> and \<open>disk_ok\<close> between two calls.
\<close>

datatype error = IOError | EntityNotFound string | IllTyped

record state =
  indexStructure :: IndexStructure
  memoryFilePath :: string
  isIndexLoaded :: bool
  files :: "string \<Rightarrow> string option"
  now :: string
  disk_ok :: bool

type_synonym 'a result = "(error + 'a) \<times> state"

text \<open>Sequencing of two steps: an exception of the first one skips the second.\<close>

definition bindE :: "'a result \<Rightarrow> ('a \<Rightarrow> state \<Rightarrow> 'b result) \<Rightarrow> 'b result" where
  "bindE r f = (case r of (Inl e, s) \<Rightarrow> (Inl e, s) | (Inr a, s) \<Rightarrow> f a s)"

text \<open>\<^verbatim>\<open>try { ... } catch (error) { ... }\<close>.  \<open>IllTyped\<close> is no exception of the
  program and passes through every handler.\<close>

definition catchE :: "'a result \<Rightarrow> (state \<Rightarrow> 'a result) \<Rightarrow> 'a result" where
  "catchE r h = (case r of (Inl IllTyped, s) \<Rightarrow> (Inl IllTyped, s)
     | (Inl e, s) \<Rightarrow> h s | (Inr a, s) \<Rightarrow> (Inr a, s))"

definition fs_access :: "state \<Rightarrow> bool" where
  "fs_access s \<longleftrightarrow> files s (memoryFilePath s) \<noteq> None"

definition fs_readFile :: "state \<Rightarrow> string result" where
  "fs_readFile s = (case files s (memoryFilePath s) of
     None \<Rightarrow> (Inl IOError, s) | Some c \<Rightarrow> (Inr c, s))"

definition fs_writeFile :: "string \<Rightarrow> state \<Rightarrow> unit result" where
  "fs_writeFile c s =
     (if disk_ok s then (Inr (), s\<lparr>files := (files s)(memoryFilePath s \<mapsto> c)\<rparr>)
      else (Inl IOError, s))"

definition setMemoryFilePath :: "string \<Rightarrow> state \<Rightarrow> state" where
  "setMemoryFilePath newPath s = s\<lparr>memoryFilePath := newPath, isIndexLoaded := False\<rparr>"

definition createEmptyIndex :: "string \<Rightarrow> IndexStructure" where
  "createEmptyIndex t =
     \<lparr>metadata = \<lparr>version = ''1.0.0'', entityCount = 0, relationCount = 0, lastUpdated = t,
                   compressionEnabled = False\<rparr>,
      entityIndices = [], typeIndices = [], relationIndices = []\<rparr>"

text \<open>The state of \<^verbatim>\<open>new StorageManager(path)\<close> in a given environment.\<close>

definition new_StorageManager :: "string \<Rightarrow> (string \<Rightarrow> string option) \<Rightarrow> string \<Rightarrow> bool \<Rightarrow> state" where
  "new_StorageManager path fs t ok =
     \<lparr>indexStructure = createEmptyIndex t, memoryFilePath = path, isIndexLoaded = False,
      files = fs, now = t, disk_ok = ok\<rparr>"

subsection \<open>parseLegacyFormat\<close>

datatype item = ItemEntity Entity | ItemRelation Relation | ItemSkip | ItemIllTyped

text \<open>The body of the \<^verbatim>\<open>forEach\<close> for one line.  A line that does not parse, or parses
  to \<^verbatim>\<open>null\<close> (reading \<^verbatim>\<open>item.type\<close> throws), is logged and skipped; a value with no
  \<^verbatim>\<open>type\<close> of "entity" or "relation" adds nothing.\<close>

definition parse_item :: "string \<Rightarrow> item" where
  "parse_item line =
     (case JSON_parse line of
        Some (JObj kvs) \<Rightarrow>
          (case map_of kvs (ustr ''type'') of
             Some (JStr t) \<Rightarrow>
               if t = ustr ''entity'' then
                 (case decode_entity (AList.delete (ustr ''type'') kvs) of
                    Some e \<Rightarrow> ItemEntity e | None \<Rightarrow> ItemIllTyped)
               else if t = ustr ''relation'' then
                 (case decode_relation (AList.delete (ustr ''type'') kvs) of
                    Some r \<Rightarrow> ItemRelation r | None \<Rightarrow> ItemIllTyped)
               else ItemSkip
           | _ \<Rightarrow> ItemSkip)
      | _ \<Rightarrow> ItemSkip)"

fun collect_items :: "item list \<Rightarrow> error + KnowledgeGraph" where
  "collect_items [] = Inr empty_graph"
| "collect_items (it # its) =
     (case collect_items its of
        Inl e \<Rightarrow> Inl e
      | Inr g \<Rightarrow>
         (case it of
            ItemEntity e \<Rightarrow> Inr (g\<lparr>entities := e # entities g\<rparr>)
          | ItemRelation r \<Rightarrow> Inr (g\<lparr>relations := r # relations g\<rparr>)
          | ItemSkip \<Rightarrow> Inr g
          | ItemIllTyped \<Rightarrow> Inl IllTyped))"

definition parseLegacyFormat :: "string \<Rightarrow> error + KnowledgeGraph" where
  "parseLegacyFormat data =
     collect_items (map parse_item (filter (\<lambda>line. trim line \<noteq> []) (split_nl data)))"

subsection \<open>buildIndexFromGraph\<close>

text \<open>One round of the loop over the entities, \<open>fp\<close> being \<open>filePosition\<close>.\<close>

definition index_entity :: "Entity \<Rightarrow> nat \<Rightarrow> IndexStructure \<Rightarrow> IndexStructure" where
  "index_entity e fp idx = idx
     \<lparr>entityIndices := AList.update (name e)
        \<lparr>ei_name = name e, ei_entityType = entityType e,
         observationCount = length (observations e), relationsFrom = [], relationsTo = [],
         filePosition = fp\<rparr> (entityIndices idx),
      typeIndices :=
        (let ns = (case map_of (typeIndices idx) (entityType e) of None \<Rightarrow> [] | Some ns \<Rightarrow> ns)
         in AList.update (entityType e) (if name e \<in> set ns then ns else ns @ [name e])
              (typeIndices idx))\<rparr>"

fun index_entities :: "Entity list \<Rightarrow> nat \<Rightarrow> IndexStructure \<Rightarrow> IndexStructure" where
  "index_entities [] fp idx = idx"
| "index_entities (e # es) fp idx = index_entities es (fp + 1) (index_entity e fp idx)"

text \<open>One round of the loop over the relations.\<close>

definition index_relation :: "Relation \<Rightarrow> IndexStructure \<Rightarrow> IndexStructure" where
  "index_relation r idx = idx
     \<lparr>entityIndices :=
        AList.map_entry (rel_to r)
          (\<lambda>ei. ei\<lparr>relationsTo := relationsTo ei @ [(relationType r, rel_from r)]\<rparr>)
          (AList.map_entry (rel_from r)
             (\<lambda>ei. ei\<lparr>relationsFrom := relationsFrom ei @ [(relationType r, rel_to r)]\<rparr>)
             (entityIndices idx)),
      relationIndices :=
        (let ps = (case map_of (relationIndices idx) (relationType r) of
                     None \<Rightarrow> [] | Some ps \<Rightarrow> ps)
         in AList.update (relationType r) (ps @ [(rel_from r, rel_to r)])
              (relationIndices idx))\<rparr>"

definition index_of_graph :: "KnowledgeGraph \<Rightarrow> string \<Rightarrow> IndexStructure" where
  "index_of_graph graph t =
     foldl (\<lambda>idx r. index_relation r idx)
       (index_entities (entities graph) 0
          ((createEmptyIndex t)\<lparr>metadata := (metadata (createEmptyIndex t))
             \<lparr>entityCount := length (entities graph),
              relationCount := length (relations graph), lastUpdated := t\<rparr>\<rparr>))
       (relations graph)"

definition buildIndexFromGraph :: "KnowledgeGraph \<Rightarrow> state \<Rightarrow> state" where
  "buildIndexFromGraph graph s = s\<lparr>indexStructure := index_of_graph graph (now s)\<rparr>"

subsection \<open>Saving\<close>

definition fileContent :: "IndexStructure \<Rightarrow> KnowledgeGraph \<Rightarrow> string" where
  "fileContent idx graph = join_nl
     ([INDEX_MARKER_START, stringify_pretty (index_json idx), INDEX_MARKER_END,
       DATA_MARKER_START]
      @ map (\<lambda>e. stringify (entity_json e)) (entities graph)
      @ map (\<lambda>r. stringify (relation_json r)) (relations graph))"

definition saveIndexAndData :: "KnowledgeGraph \<Rightarrow> state \<Rightarrow> unit result" where
  "saveIndexAndData graph s = fs_writeFile (fileContent (indexStructure s) graph) s"

definition saveIndexAndEmptyData :: "state \<Rightarrow> unit result" where
  "saveIndexAndEmptyData s = saveIndexAndData empty_graph s"

subsection \<open>Loading\<close>

definition lift :: "error + 'a \<Rightarrow> state \<Rightarrow> 'a result" where
  "lift r s = (r, s)"

definition migrateFromLegacyFormat :: "string \<Rightarrow> state \<Rightarrow> IndexStructure result" where
  "migrateFromLegacyFormat data s =
     bindE (lift (parseLegacyFormat data) s) (\<lambda>graph s.
     bindE (saveIndexAndData graph (buildIndexFromGraph graph s)) (\<lambda>_ s.
       (Inr (indexStructure s), s)))"

definition rebuildIndex :: "state \<Rightarrow> IndexStructure result" where
  "rebuildIndex s =
     catchE
       (bindE (fs_readFile s) (\<lambda>data s.
          case indexOf data DATA_MARKER_START of
            None \<Rightarrow> migrateFromLegacyFormat data s
          | Some dataStartPos \<Rightarrow>
              bindE (lift (parseLegacyFormat
                       (trim (substring_from data (dataStartPos + length DATA_MARKER_START)))) s)
                (\<lambda>graph s.
              bindE (saveIndexAndData graph (buildIndexFromGraph graph s)) (\<lambda>_ s.
                let s' = s\<lparr>isIndexLoaded := True\<rparr> in (Inr (indexStructure s'), s')))))
       (\<lambda>s. let s' = s\<lparr>indexStructure := createEmptyIndex (now s)\<rparr> in
          bindE (saveIndexAndEmptyData s') (\<lambda>_ s. (Inr (indexStructure s), s)))"

text \<open>\<^verbatim>\<open>loadIndex\<close> once the file is read and holds the start marker.\<close>

definition parse_index_section :: "string \<Rightarrow> state \<Rightarrow> IndexStructure result" where
  "parse_index_section data s =
     (let indexStartPos = the (indexOf data INDEX_MARKER_START) + length INDEX_MARKER_START
      in case indexOf data INDEX_MARKER_END of
        None \<Rightarrow> rebuildIndex s
      | Some indexEndPos \<Rightarrow>
          if indexStartPos \<ge> indexEndPos then rebuildIndex s
          else
            (case JSON_parse (trim (substring data indexStartPos indexEndPos)) of
               None \<Rightarrow> rebuildIndex s
             | Some parsedIndex \<Rightarrow>
                (case decode_index parsedIndex of
                   None \<Rightarrow> (Inl IllTyped, s)
                 | Some idx \<Rightarrow>
                     let s' = s\<lparr>indexStructure := idx, isIndexLoaded := True\<rparr>
                     in (Inr (indexStructure s'), s'))))"

definition loadIndex :: "state \<Rightarrow> IndexStructure result" where
  "loadIndex s =
     (if isIndexLoaded s then (Inr (indexStructure s), s)
      else catchE
        (if \<not> fs_access s then
           bindE (saveIndexAndEmptyData s) (\<lambda>_ s.
             let s' = s\<lparr>isIndexLoaded := True\<rparr> in (Inr (indexStructure s'), s'))
         else
           bindE (fs_readFile s) (\<lambda>data s.
             if \<not> str_includes data INDEX_MARKER_START then
               bindE (migrateFromLegacyFormat data s) (\<lambda>_ s.
                 let s' = s\<lparr>isIndexLoaded := True\<rparr> in (Inr (indexStructure s'), s'))
             else parse_index_section data s))
        (\<lambda>s. let s' = s\<lparr>indexStructure := createEmptyIndex (now s)\<rparr>
             in (Inr (indexStructure s'), s')))"

definition loadFullGraph :: "state \<Rightarrow> KnowledgeGraph result" where
  "loadFullGraph s =
     catchE
       (bindE (loadIndex s) (\<lambda>_ s.
        bindE (fs_readFile s) (\<lambda>data s.
          case indexOf data DATA_MARKER_START of
            None \<Rightarrow> lift (parseLegacyFormat data) s
          | Some p \<Rightarrow>
              lift (parseLegacyFormat
                      (trim (substring_from data (p + length DATA_MARKER_START)))) s)))
       (\<lambda>s. (Inr empty_graph, s))"

text \<open>\<^verbatim>\<open>if (!this.isIndexLoaded) await this.loadIndex()\<close>.\<close>

definition ensureIndex :: "state \<Rightarrow> unit result" where
  "ensureIndex s = (if \<not> isIndexLoaded s then bindE (loadIndex s) (\<lambda>_ s. (Inr (), s))
     else (Inr (), s))"

subsection \<open>Lookups\<close>

definition getEntityByName :: "string \<Rightarrow> state \<Rightarrow> Entity option result" where
  "getEntityByName entityName s =
     bindE (ensureIndex s) (\<lambda>_ s.
       case map_of (entityIndices (indexStructure s)) entityName of
         None \<Rightarrow> (Inr None, s)
       | Some entityIndex \<Rightarrow>
           bindE (loadFullGraph s) (\<lambda>fullGraph s.
             (Inr (find (\<lambda>e. name e = entityName) (entities fullGraph)), s)))"

definition getEntitiesByType :: "string \<Rightarrow> state \<Rightarrow> Entity list result" where
  "getEntitiesByType et s =
     bindE (ensureIndex s) (\<lambda>_ s.
       case map_of (typeIndices (indexStructure s)) et of
         None \<Rightarrow> (Inr [], s)
       | Some entityNames \<Rightarrow>
           if entityNames = [] then (Inr [], s)
           else bindE (loadFullGraph s) (\<lambda>fullGraph s.
             (Inr (filter (\<lambda>e. name e \<in> set entityNames) (entities fullGraph)), s)))"

definition getRelationsByType :: "string \<Rightarrow> state \<Rightarrow> Relation list result" where
  "getRelationsByType rt s =
     bindE (ensureIndex s) (\<lambda>_ s.
       case map_of (relationIndices (indexStructure s)) rt of
         None \<Rightarrow> (Inr [], s)
       | Some relationPairs \<Rightarrow>
           if relationPairs = [] then (Inr [], s)
           else bindE (loadFullGraph s) (\<lambda>fullGraph s.
             (Inr (filter (\<lambda>r. relationType r = rt \<and>
                       (\<exists>pair \<in> set relationPairs. fst pair = rel_from r \<and> snd pair = rel_to r))
                    (relations fullGraph)), s)))"

definition searchEntitiesByName :: "string \<Rightarrow> state \<Rightarrow> Entity list result" where
  "searchEntitiesByName query s =
     bindE (ensureIndex s) (\<lambda>_ s.
       let matchingEntityNames =
             filter (\<lambda>n. str_includes (toLowerCase n) (toLowerCase query))
               (map fst (entityIndices (indexStructure s)))
       in if matchingEntityNames = [] then (Inr [], s)
          else bindE (loadFullGraph s) (\<lambda>fullGraph s.
            (Inr (filter (\<lambda>e. name e \<in> set matchingEntityNames) (entities fullGraph)), s)))"

subsection \<open>Mutations\<close>

text \<open>\<^verbatim>\<open>array.findIndex(p)\<close>, \<open>None\<close> for \<^verbatim>\<open>-1\<close>.\<close>

fun findIndex :: "('a \<Rightarrow> bool) \<Rightarrow> 'a list \<Rightarrow> nat option" where
  "findIndex p [] = None"
| "findIndex p (x # xs) = (if p x then Some 0 else map_option Suc (findIndex p xs))"

definition same_relation :: "Relation \<Rightarrow> Relation \<Rightarrow> bool" where
  "same_relation r relation \<longleftrightarrow> rel_from r = rel_from relation \<and> rel_to r = rel_to relation
     \<and> relationType r = relationType relation"

text \<open>The edits that the four mutations make to the loaded graph.\<close>

definition put_entity :: "Entity \<Rightarrow> KnowledgeGraph \<Rightarrow> KnowledgeGraph" where
  "put_entity entity graph =
     (case findIndex (\<lambda>e. name e = name entity) (entities graph) of
        Some existingIndex \<Rightarrow> graph\<lparr>entities := (entities graph)[existingIndex := entity]\<rparr>
      | None \<Rightarrow> graph\<lparr>entities := entities graph @ [entity]\<rparr>)"

definition push_relation :: "Relation \<Rightarrow> KnowledgeGraph \<Rightarrow> KnowledgeGraph" where
  "push_relation relation graph = graph\<lparr>relations := relations graph @ [relation]\<rparr>"

definition remove_entity :: "string \<Rightarrow> KnowledgeGraph \<Rightarrow> KnowledgeGraph" where
  "remove_entity entityName graph = graph
     \<lparr>entities := filter (\<lambda>e. name e \<noteq> entityName) (entities graph),
      relations := filter (\<lambda>r. rel_from r \<noteq> entityName \<and> rel_to r \<noteq> entityName)
                     (relations graph)\<rparr>"

definition remove_relation :: "Relation \<Rightarrow> KnowledgeGraph \<Rightarrow> KnowledgeGraph" where
  "remove_relation relation graph = graph
     \<lparr>relations := filter (\<lambda>r. \<not> same_relation r relation) (relations graph)\<rparr>"

definition updateEntity :: "Entity \<Rightarrow> state \<Rightarrow> unit result" where
  "updateEntity entity s =
     bindE (ensureIndex s) (\<lambda>_ s.
     bindE (loadFullGraph s) (\<lambda>graph s.
       let graph' = put_entity entity graph
       in saveIndexAndData graph' (buildIndexFromGraph graph' s)))"

definition updateRelation :: "Relation \<Rightarrow> state \<Rightarrow> unit result" where
  "updateRelation relation s =
     bindE (ensureIndex s) (\<lambda>_ s.
     bindE (loadFullGraph s) (\<lambda>graph s.
       case findIndex (\<lambda>r. same_relation r relation) (relations graph) of
         Some existingIndex \<Rightarrow> (Inr (), s)
       | None \<Rightarrow>
           let graph' = push_relation relation graph
           in saveIndexAndData graph' (buildIndexFromGraph graph' s)))"

definition deleteEntity :: "string \<Rightarrow> state \<Rightarrow> unit result" where
  "deleteEntity entityName s =
     bindE (ensureIndex s) (\<lambda>_ s.
     bindE (loadFullGraph s) (\<lambda>graph s.
       let graph' = remove_entity entityName graph
       in saveIndexAndData graph' (buildIndexFromGraph graph' s)))"

definition deleteRelation :: "Relation \<Rightarrow> state \<Rightarrow> unit result" where
  "deleteRelation relation s =
     bindE (ensureIndex s) (\<lambda>_ s.
     bindE (loadFullGraph s) (\<lambda>graph s.
       let graph' = remove_relation relation graph
       in saveIndexAndData graph' (buildIndexFromGraph graph' s)))"

section \<open>The knowledge graph manager\<close>

text \<open>A \<^verbatim>\<open>for\<close> loop that awaits one storage call per element.\<close>

fun forEachE :: "('a \<Rightarrow> state \<Rightarrow> unit result) \<Rightarrow> 'a list \<Rightarrow> state \<Rightarrow> unit result" where
  "forEachE f [] s = (Inr (), s)"
| "forEachE f (x # xs) s = bindE (f x s) (\<lambda>_ s. forEachE f xs s)"

definition readIndex :: "state \<Rightarrow> IndexStructure result" where
  "readIndex s = loadIndex s"

definition readGraph :: "state \<Rightarrow> KnowledgeGraph result" where
  "readGraph s = loadFullGraph s"

definition createEntities :: "Entity list \<Rightarrow> state \<Rightarrow> Entity list result" where
  "createEntities ents s =
     bindE (loadFullGraph s) (\<lambda>graph s.
       let newEntities =
             filter (\<lambda>e. \<not> (\<exists>existingEntity \<in> set (entities graph).
                                name existingEntity = name e)) ents
       in bindE (forEachE updateEntity newEntities s) (\<lambda>_ s. (Inr newEntities, s)))"

definition createRelations :: "Relation list \<Rightarrow> state \<Rightarrow> Relation list result" where
  "createRelations rels s =
     bindE (loadFullGraph s) (\<lambda>graph s.
       let newRelations =
             filter (\<lambda>relation. \<not> (\<exists>r \<in> set (relations graph). same_relation r relation)) rels
       in bindE (forEachE updateRelation newRelations s) (\<lambda>_ s. (Inr newRelations, s)))"

record ObservationInput =
  entityName :: string
  contents :: "string list"

record ObservationResult =
  res_entityName :: string
  addedObservations :: "string list"

text \<open>The loop of \<^verbatim>\<open>addObservations\<close>, \<open>results\<close> being the array built so far.\<close>

fun addObservations_loop ::
  "ObservationInput list \<Rightarrow> ObservationResult list \<Rightarrow> state \<Rightarrow> ObservationResult list result" where
  "addObservations_loop [] results s = (Inr results, s)"
| "addObservations_loop (observation # rest) results s =
     bindE (getEntityByName (entityName observation) s) (\<lambda>found s.
       case found of
         None \<Rightarrow> (Inl (EntityNotFound (entityName observation)), s)
       | Some entity \<Rightarrow>
           let newObservations =
                 filter (\<lambda>content. content \<notin> set (observations entity)) (contents observation)
           in if newObservations \<noteq> [] then
                bindE (updateEntity
                         (entity\<lparr>observations := observations entity @ newObservations\<rparr>) s)
                  (\<lambda>_ s. addObservations_loop rest
                     (results @ [\<lparr>res_entityName = entityName observation,
                                  addedObservations = newObservations\<rparr>]) s)
              else addObservations_loop rest
                     (results @ [\<lparr>res_entityName = entityName observation,
                                  addedObservations = []\<rparr>]) s)"

definition addObservations :: "ObservationInput list \<Rightarrow> state \<Rightarrow> ObservationResult list result" where
  "addObservations obs s = addObservations_loop obs [] s"

definition deleteEntities :: "string list \<Rightarrow> state \<Rightarrow> unit result" where
  "deleteEntities entityNames s = forEachE deleteEntity entityNames s"

record ObservationDeletion =
  del_entityName :: string
  del_observations :: "string list"

definition deleteObservations_step :: "ObservationDeletion \<Rightarrow> state \<Rightarrow> unit result" where
  "deleteObservations_step deletion s =
     bindE (getEntityByName (del_entityName deletion) s) (\<lambda>found s.
       case found of
         None \<Rightarrow> (Inr (), s)
       | Some entity \<Rightarrow>
           updateEntity
             (entity\<lparr>observations :=
                filter (\<lambda>ob. ob \<notin> set (del_observations deletion)) (observations entity)\<rparr>) s)"

definition deleteObservations :: "ObservationDeletion list \<Rightarrow> state \<Rightarrow> unit result" where
  "deleteObservations deletions s = forEachE deleteObservations_step deletions s"

definition deleteRelations :: "Relation list \<Rightarrow> state \<Rightarrow> unit result" where
  "deleteRelations rels s = forEachE deleteRelation rels s"

subsection \<open>Search\<close>

text \<open>
  The four regular expressions of \<^verbatim>\<open>searchNodes\<close> have the form
  \<^verbatim>\<open>/kw\s+(\w+)/i\<close>.  \<open>regex_match kw q\<close> is the first capture group of the leftmost
  match in \<open>q\<close>, or \<open>None\<close> when \<^verbatim>\<open>q.match\<close> returns null; \<open>kw\<close> is given in lower
  case.
\<close>

definition ascii_lower :: "char \<Rightarrow> char" where
  "ascii_lower c = (let n = (of_char c :: nat) in
     if 65 \<le> n \<and> n \<le> 90 then char_of (n + 32) else c)"

definition is_word_char :: "char \<Rightarrow> bool" where
  "is_word_char c = (let n = (of_char c :: nat) in
     (48 \<le> n \<and> n \<le> 57) \<or> (65 \<le> n \<and> n \<le> 90) \<or> (97 \<le> n \<and> n \<le> 122) \<or> n = 95)"

definition match_here :: "string \<Rightarrow> string \<Rightarrow> string option" where
  "match_here kw s =
     (if map ascii_lower (take (length kw) s) = kw then
        (let r = drop (length kw) s;
             w = takeWhile is_word_char (dropWhile is_js_space r)
         in if r \<noteq> [] \<and> is_js_space (hd r) \<and> w \<noteq> [] then Some w else None)
      else None)"

fun regex_match :: "string \<Rightarrow> string \<Rightarrow> string option" where
  "regex_match kw [] = None"
| "regex_match kw (c # cs) =
     (case match_here kw (c # cs) of Some w \<Rightarrow> Some w | None \<Rightarrow> regex_match kw cs)"

text \<open>The relations between the entities of a result.\<close>

definition induced_relations :: "Entity list \<Rightarrow> Relation list \<Rightarrow> Relation list" where
  "induced_relations ents rels =
     filter (\<lambda>r. rel_from r \<in> set (map name ents) \<and> rel_to r \<in> set (map name ents)) rels"

definition matches_term :: "string \<Rightarrow> Entity \<Rightarrow> bool" where
  "matches_term term e \<longleftrightarrow>
     str_includes (toLowerCase (name e)) (toLowerCase term) \<or>
     str_includes (toLowerCase (entityType e)) (toLowerCase term) \<or>
     (\<exists>ob \<in> set (observations e). str_includes (toLowerCase ob) (toLowerCase term))"

definition legacySearchNodes :: "string \<Rightarrow> state \<Rightarrow> KnowledgeGraph result" where
  "legacySearchNodes query s =
     bindE (loadFullGraph s) (\<lambda>graph s.
       let searchTerms = split_ws (trim query) in
       if length searchTerms > 1 then
         let allMatchingEntities =
               concat (map (\<lambda>term. map name (filter (matches_term term) (entities graph)))
                         searchTerms)
         in (Inr \<lparr>entities = filter (\<lambda>e. name e \<in> set allMatchingEntities) (entities graph),
                  relations = filter (\<lambda>r. rel_from r \<in> set allMatchingEntities \<and>
                                          rel_to r \<in> set allMatchingEntities) (relations graph)\<rparr>, s)
       else
         let filteredEntities = filter (matches_term query) (entities graph)
         in (Inr \<lparr>entities = filteredEntities,
                  relations = induced_relations filteredEntities (relations graph)\<rparr>, s))"

definition searchNodes :: "string \<Rightarrow> state \<Rightarrow> KnowledgeGraph result" where
  "searchNodes query s =
     bindE (loadIndex s) (\<lambda>_ s.
       let relationMatch = regex_match ''relations'' query;
           fromMatch = regex_match ''from'' query;
           toMatch = regex_match ''to'' query;
           typeMatch = regex_match ''type'' query
       in
       if relationMatch \<noteq> None \<or> fromMatch \<noteq> None \<or> toMatch \<noteq> None \<or> typeMatch \<noteq> None then
         bindE (loadFullGraph s) (\<lambda>graph s.
           let r1 = (case relationMatch of None \<Rightarrow> relations graph
                     | Some en \<Rightarrow> filter (\<lambda>r. rel_from r = en \<or> rel_to r = en) (relations graph));
               r2 = (case fromMatch of None \<Rightarrow> r1
                     | Some fromEntity \<Rightarrow> filter (\<lambda>r. rel_from r = fromEntity) r1);
               r3 = (case toMatch of None \<Rightarrow> r2
                     | Some toEntity \<Rightarrow> filter (\<lambda>r. rel_to r = toEntity) r2);
               filteredRelations = (case typeMatch of None \<Rightarrow> r3
                     | Some rt \<Rightarrow> filter (\<lambda>r. str_includes (toLowerCase (relationType r))
                                                (toLowerCase rt)) r3);
               relatedEntityNames = concat (map (\<lambda>r. [rel_from r, rel_to r]) filteredRelations)
           in (Inr \<lparr>entities = filter (\<lambda>e. name e \<in> set relatedEntityNames) (entities graph),
                    relations = filteredRelations\<rparr>, s))
       else if prefix ''type '' (toLowerCase query) then
         bindE (getEntitiesByType (trim (substring_from query 5)) s) (\<lambda>ents s.
         bindE (loadFullGraph s) (\<lambda>graph s.
           (Inr \<lparr>entities = ents, relations = induced_relations ents (relations graph)\<rparr>, s)))
       else if length (split_ws (trim query)) > 1 then legacySearchNodes query s
       else
         bindE (searchEntitiesByName query s) (\<lambda>ents s.
         bindE (loadFullGraph s) (\<lambda>graph s.
           (Inr \<lparr>entities = ents, relations = induced_relations ents (relations graph)\<rparr>, s))))"

section \<open>Notions used in the proofs\<close>

text \<open>The tokens of the rendering of a value, and the value \<^verbatim>\<open>JSON.parse\<close> returns for it.\<close>

definition member_toks :: "string \<times> token list \<Rightarrow> token list" where
  "member_toks kv = TStr (ustr (fst kv)) # TColon # snd kv"

primrec toks :: "string json \<Rightarrow> token list" where
  "toks JNull = [TNull]"
| "toks (JBool b) = [if b then TTrue else TFalse]"
| "toks (JNum l) = [TNum l]"
| "toks (JStr s) = [TStr (ustr s)]"
| "toks (JArr vs) = TLBrack # sep_by [TComma] (map toks vs) @ [TRBrack]"
| "toks (JObj kvs) =
     TLBrace # sep_by [TComma] (map member_toks (map (map_prod id toks) kvs)) @ [TRBrace]"

definition parsed :: "string json \<Rightarrow> ustring json" where
  "parsed v = map_json ustr v"

text \<open>Values that \<^verbatim>\<open>JSON.stringify\<close> produces from the typed data: a number is a plain
  decimal literal, the keys of an object are distinct.\<close>

fun wfj :: "string json \<Rightarrow> bool" where
  "wfj (JNum l) = (nat_of_lit l \<noteq> None)"
| "wfj (JArr vs) = (\<forall>v \<in> set vs. wfj v)"
| "wfj (JObj kvs) = (distinct (map fst kvs) \<and> (\<forall>kv \<in> set kvs. wfj (snd kv)))"
| "wfj _ = True"

text \<open>The scanner emits a number when the character after it arrives; \<open>settle\<close> emits a
  pending number at once.\<close>

fun settle :: "lstate \<Rightarrow> lstate" where
  "settle (LSt ts (MNum m lit)) = (if num_final m then LSt (ts @ [TNum lit]) MIdle else LFail)"
| "settle st = st"

definition num_end :: "char \<Rightarrow> bool" where
  "num_end c \<longleftrightarrow> c = CHR '','' \<or> c = CHR '']'' \<or> c = CHR ''}'' \<or> c = CHR 0x0A"

text \<open>A line that \<open>parseLegacyFormat\<close> passes over: blank, or adding nothing.\<close>

definition harmless :: "string \<Rightarrow> bool" where
  "harmless l \<longleftrightarrow> trim l = [] \<or> parse_item l = ItemSkip"

text \<open>The lines of an indented rendering: a line ends with a character other than a
  closing brace, or is a closing brace after indentation, or ends with an empty object; the
  first line of a value is of the first or the third kind.\<close>

definition head_shape :: "string \<Rightarrow> bool" where
  "head_shape l \<longleftrightarrow> (l \<noteq> [] \<and> \<not> is_json_ws (last l) \<and> last l \<noteq> CHR ''}'') \<or> (\<exists>p. l = p @ ''{}'')"

definition line_shape :: "string \<Rightarrow> bool" where
  "line_shape l \<longleftrightarrow> head_shape l \<or> (\<exists>m. l = spaces m @ ''}'')"

definition block_ok :: "string list \<Rightarrow> bool" where
  "block_ok ls \<longleftrightarrow> ls \<noteq> [] \<and> head_shape (hd ls) \<and> (\<forall>l \<in> set ls. line_shape l)"

text \<open>The lines of a saved file: those up to the data marker, and the records.\<close>

definition header_lines :: "IndexStructure \<Rightarrow> string list" where
  "header_lines idx =
     INDEX_MARKER_START # pretty (index_json idx) 0 @ [INDEX_MARKER_END, DATA_MARKER_START]"

definition data_lines :: "KnowledgeGraph \<Rightarrow> string list" where
  "data_lines graph =
     map (\<lambda>e. stringify (entity_json e)) (entities graph)
     @ map (\<lambda>r. stringify (relation_json r)) (relations graph)"

text \<open>The index as \<open>loadIndex\<close> rebuilds it from its own rendering.\<close>

definition reloaded :: "IndexStructure \<Rightarrow> IndexStructure" where
  "reloaded idx =
     \<lparr>metadata = metadata idx, entityIndices = map_of_entries (entityIndices idx),
      typeIndices = map_of_entries (map (\<lambda>kv. (fst kv, remdups_first (snd kv))) (typeIndices idx)),
      relationIndices = map_of_entries (relationIndices idx)\<rparr>"

text \<open>What \<open>loadFullGraph\<close> and \<open>rebuildIndex\<close> read from the content of a file.\<close>

definition read_data :: "string \<Rightarrow> error + KnowledgeGraph" where
  "read_data data =
     (case indexOf data DATA_MARKER_START of
        None \<Rightarrow> parseLegacyFormat data
      | Some p \<Rightarrow> parseLegacyFormat (trim (substring_from data (p + length DATA_MARKER_START))))"

text \<open>The states in which the graph \<open>G\<close> is stored: with a loaded index, the file reads
  as \<open>G\<close> (a missing file as the empty graph); without, the file is one that
  \<open>saveIndexAndData\<close> wrote for \<open>G\<close>.\<close>

definition good :: "state \<Rightarrow> KnowledgeGraph \<Rightarrow> bool" where
  "good s G \<longleftrightarrow>
     (if isIndexLoaded s then
        (case files s (memoryFilePath s) of
           None \<Rightarrow> G = empty_graph
         | Some c \<Rightarrow> read_data c = Inr G)
      else (\<exists>idx. files s (memoryFilePath s) = Some (fileContent idx G)))"

text \<open>The file path and the environment's clock and disk are the same in both states.\<close>

definition same_env :: "state \<Rightarrow> state \<Rightarrow> bool" where
  "same_env s s' \<longleftrightarrow> memoryFilePath s' = memoryFilePath s \<and> disk_ok s' = disk_ok s \<and> now s' = now s"

text \<open>The two outcomes of \<open>loadIndex\<close> on a file that \<open>saveIndexAndData\<close> wrote with the
  index \<open>idx\<close> for the graph \<open>G\<close>: the index section parsed, or the index rebuilt from the
  data section.\<close>

definition index_parsed :: "IndexStructure \<Rightarrow> state \<Rightarrow> state" where
  "index_parsed idx s = s\<lparr>indexStructure := reloaded idx, isIndexLoaded := True\<rparr>"

definition index_rebuilt :: "KnowledgeGraph \<Rightarrow> state \<Rightarrow> state" where
  "index_rebuilt G s = s\<lparr>indexStructure := index_of_graph G (now s),
     files := (files s)(memoryFilePath s \<mapsto> fileContent (index_of_graph G (now s)) G),
     isIndexLoaded := True\<rparr>"

text \<open>The index payload of a file cannot be used: the end marker is missing or not after
  the start marker, or the text between the markers does not parse.\<close>

definition index_unreadable :: "string \<Rightarrow> bool" where
  "index_unreadable data \<longleftrightarrow>
     (case indexOf data INDEX_MARKER_END of
        None \<Rightarrow> True
      | Some indexEndPos \<Rightarrow>
          the (indexOf data INDEX_MARKER_START) + length INDEX_MARKER_START \<ge> indexEndPos \<or>
          JSON_parse (trim (substring data
             (the (indexOf data INDEX_MARKER_START) + length INDEX_MARKER_START) indexEndPos)) = None)"

section \<open>Example states\<close>

text \<open>The state of a manager on the file \<^verbatim>\<open>m.json\<close> that has stored the graph \<open>g\<close> at
  time \<open>t\<close>: the file as \<open>saveIndexAndData\<close> writes it, and its index in the cache.\<close>

definition stored :: "KnowledgeGraph \<Rightarrow> string \<Rightarrow> bool \<Rightarrow> state" where
  "stored g t ok =
     \<lparr>indexStructure = index_of_graph g t, memoryFilePath = ''m.json'', isIndexLoaded = True,
      files = (\<lambda>_. None)(''m.json'' \<mapsto> fileContent (index_of_graph g t) g), now = t,
      disk_ok = ok\<rparr>"

definition ex_alice :: Entity where
  "ex_alice = \<lparr>name = ''Alice'', entityType = ''person'', observations = [''tea'']\<rparr>"

definition ex_bob :: Entity where
  "ex_bob = \<lparr>name = ''Bob'', entityType = ''robot'', observations = []\<rparr>"

definition ex_dangling :: Relation where
  "ex_dangling = \<lparr>rel_from = ''Alice'', rel_to = ''Nobody'', relationType = ''knows''\<rparr>"

definition ex_personal :: Relation where
  "ex_personal = \<lparr>rel_from = ''Alice'', rel_to = ''Bob'', relationType = ''personal''\<rparr>"

definition ex_graph1 :: KnowledgeGraph where
  "ex_graph1 = \<lparr>entities = [ex_alice], relations = []\<rparr>"

definition ex_graph2 :: KnowledgeGraph where
  "ex_graph2 = \<lparr>entities = [ex_alice, ex_bob], relations = [ex_personal]\<rparr>"

text \<open>The index a result carries, if any.\<close>

definition index_of_result :: "IndexStructure result \<Rightarrow> IndexStructure option" where
  "index_of_result r = (case fst r of Inr i \<Rightarrow> Some i | Inl e \<Rightarrow> None)"

text \<open>A file whose index payload is cut short, with one record in its data section.\<close>

definition ex_corrupt :: string where
  "ex_corrupt = join_nl [INDEX_MARKER_START, ''{'', INDEX_MARKER_END, DATA_MARKER_START,
     stringify (entity_json ex_alice)]"

section \<open>Lemmas\<close>

subsection \<open>The scanner on rendered text\<close>

lemma of_char_eq_34 [simp]: "(of_char c = (34::nat)) = (c = CHR 0x22)"
proof -
  have "(of_char c = (34::nat)) = (of_char c = (of_char (CHR 0x22) :: nat))" by simp
  also have "\<dots> = (c = CHR 0x22)" by (rule of_char_eq_iff)
  finally show ?thesis .
qed

lemma of_char_eq_92 [simp]: "(of_char c = (92::nat)) = (c = CHR 0x5C)"
proof -
  have "(of_char c = (92::nat)) = (of_char c = (of_char (CHR 0x5C) :: nat))" by simp
  also have "\<dots> = (c = CHR 0x5C)" by (rule of_char_eq_iff)
  finally show ?thesis .
qed

lemma lex_fail [simp]: "foldl lex_step LFail s = LFail"
  by (induction s) auto

lemma hex_val_digit: "n < 16 \<Longrightarrow> hex_val (hex_digit n) = Some n"
proof (cases "n < 10")
  case True
  then have "of_char (char_of (48 + n) :: char) = 48 + n" by simp
  then show ?thesis using True by (simp add: hex_val_def hex_digit_def Let_def del: of_char_of)
next
  case False
  assume "n < 16"
  then have "of_char (char_of (87 + n) :: char) = 87 + n" by simp
  then show ?thesis using False \<open>n < 16\<close>
    by (simp add: hex_val_def hex_digit_def Let_def del: of_char_of)
qed

lemma hex_val_zero: "hex_val CHR ''0'' = Some 0"
  by (simp add: hex_val_def)

lemma lex_esc_char:
  "foldl lex_step (LSt ts (MStr acc)) (esc_char c) = LSt ts (MStr (acc @ [of_char c]))"
proof -
  let ?n = "of_char c :: nat"
  consider "?n = 34" | "?n = 92" | "?n = 8" | "?n = 12" | "?n = 10" | "?n = 13" | "?n = 9"
    | "?n < 32" "?n \<notin> {8, 9, 10, 12, 13}" | "?n \<ge> 32" "?n \<noteq> 34" "?n \<noteq> 92"
    by force
  then show ?thesis
  proof cases
    case 8
    have d: "?n div 16 < 16" "?n mod 16 < 16" using 8 by auto
    have v: "16 * (?n div 16) + ?n mod 16 = ?n" by simp
    from 8 have ne: "?n \<noteq> 34" "?n \<noteq> 92" by auto
    show ?thesis using 8 ne v
      by (simp add: esc_char_def Let_def hex_val_digit[OF d(1)] hex_val_digit[OF d(2)] hex_val_zero)
  qed (auto simp: esc_char_def Let_def)
qed

lemma lex_esc:
  "foldl lex_step (LSt ts (MStr acc)) (concat (map esc_char s))
     = LSt ts (MStr (acc @ map of_char s))"
  by (induction s arbitrary: acc) (auto simp: lex_esc_char)

lemma lex_quote:
  "foldl lex_step (LSt ts MIdle) (quote s) = LSt (ts @ [TStr (ustr s)]) MIdle"
  by (simp add: quote_def lex_idle_def is_json_ws_def lex_esc ustr_def)

lemma lex_spaces:
  "foldl lex_step (LSt ts MIdle) (spaces n) = LSt ts MIdle"
  by (induction n) (auto simp: spaces_def lex_idle_def is_json_ws_def)

lemma num_end_step: "num_end c \<Longrightarrow> num_step m c = None"
  by (cases m) (auto simp: num_end_def is_digit_def)

lemma settle_step: "num_end c \<Longrightarrow> lex_step st c = lex_step (settle st) c"
proof (cases st)
  case (LSt ts m)
  assume "num_end c"
  then show ?thesis using LSt by (cases m) (auto simp: num_end_step)
qed simp

lemma settle_finish: "lex_finish st = lex_finish (settle st)"
proof (cases st)
  case (LSt ts m)
  then show ?thesis by (cases m) auto
qed simp

lemma settle_idle [simp]: "settle (LSt ts MIdle) = LSt ts MIdle"
  by simp

text \<open>A plain decimal literal.\<close>

lemma lex_digits_run:
  "list_all is_digit l \<Longrightarrow>
   foldl lex_step (LSt ts (MNum NInt acc)) l = LSt ts (MNum NInt (acc @ l))"
  by (induction l arbitrary: acc) auto

lemma lex_lit:
  assumes "nat_of_lit l \<noteq> None"
  shows "settle (foldl lex_step (LSt ts MIdle) l) = LSt (ts @ [TNum l]) MIdle"
proof -
  from assms obtain c cs where l: "l = c # cs" and dg: "list_all is_digit (c # cs)"
    and z: "l = ''0'' \<or> c \<noteq> CHR ''0''"
    by (cases l) (auto simp: nat_of_lit_def split: if_splits)
  have nws: "\<not> is_json_ws c" "c \<noteq> CHR ''{''" "c \<noteq> CHR ''}''" "c \<noteq> CHR ''[''" "c \<noteq> CHR '']''"
    "c \<noteq> CHR '':''" "c \<noteq> CHR '',''" "c \<noteq> CHR 0x22" "c \<noteq> CHR ''-''"
    using dg by (auto simp: is_digit_def is_json_ws_def)
  show ?thesis
  proof (cases "c = CHR ''0''")
    case True
    with z l have "l = ''0''" by auto
    then show ?thesis by (simp add: lex_idle_def is_json_ws_def)
  next
    case False
    have "foldl lex_step (LSt ts MIdle) l = foldl lex_step (LSt ts (MNum NInt [c])) cs"
      using False nws dg by (simp add: l lex_idle_def)
    also have "\<dots> = LSt ts (MNum NInt ([c] @ cs))"
      using dg by (intro lex_digits_run) simp
    finally show ?thesis by (simp add: l)
  qed
qed

lemma sep_by_cons: "sep_by s (x # xs) = x @ concat (map (\<lambda>y. s @ y) xs)"
  by (induction xs arbitrary: x) auto

lemma lex_comma_sep:
  assumes "settle st = LSt ts MIdle"
  shows "foldl lex_step st '','' = LSt (ts @ [TComma]) MIdle"
    and "foldl lex_step st ('','' @ [CHR 0x0A]) = LSt (ts @ [TComma]) MIdle"
proof -
  have "lex_step st CHR '','' = lex_step (settle st) CHR '',''"
    by (rule settle_step) (simp add: num_end_def)
  also have "\<dots> = LSt (ts @ [TComma]) MIdle"
    by (simp add: assms lex_idle_def is_json_ws_def)
  finally show "foldl lex_step st '','' = LSt (ts @ [TComma]) MIdle" by simp
  then show "foldl lex_step st ('','' @ [CHR 0x0A]) = LSt (ts @ [TComma]) MIdle"
    by (simp add: lex_idle_def is_json_ws_def)
qed

lemma lex_commas:
  assumes "\<And>v ts. v \<in> set vs \<Longrightarrow> settle (foldl lex_step (LSt ts MIdle) (f v)) = LSt (ts @ g v) MIdle"
    and "\<And>st ts. settle st = LSt ts MIdle \<Longrightarrow> foldl lex_step st sep = LSt (ts @ [TComma]) MIdle"
    and "settle st = LSt ts MIdle"
  shows "settle (foldl lex_step st (concat (map (\<lambda>y. sep @ f y) vs)))
         = LSt (ts @ concat (map (\<lambda>y. [TComma] @ g y) vs)) MIdle"
  using assms
proof (induction vs arbitrary: st ts)
  case Nil
  then show ?case by simp
next
  case (Cons y vs)
  have c: "foldl lex_step st sep = LSt (ts @ [TComma]) MIdle"
    by (rule Cons.prems(2)) (rule Cons.prems(3))
  have y: "settle (foldl lex_step (LSt (ts @ [TComma]) MIdle) (f y)) = LSt ((ts @ [TComma]) @ g y) MIdle"
    by (rule Cons.prems(1)) simp
  have "settle (foldl lex_step (foldl lex_step (LSt (ts @ [TComma]) MIdle) (f y))
          (concat (map (\<lambda>y. sep @ f y) vs)))
        = LSt (((ts @ [TComma]) @ g y) @ concat (map (\<lambda>y. [TComma] @ g y) vs)) MIdle"
    by (rule Cons.IH[OF _ _ y]) (simp_all add: Cons.prems(1,2))
  then show ?case by (simp add: c)
qed

lemma lex_sep_by:
  assumes "\<And>v ts. v \<in> set vs \<Longrightarrow> settle (foldl lex_step (LSt ts MIdle) (f v)) = LSt (ts @ g v) MIdle"
    and "\<And>st ts. settle st = LSt ts MIdle \<Longrightarrow> foldl lex_step st sep = LSt (ts @ [TComma]) MIdle"
  shows "settle (foldl lex_step (LSt ts MIdle) (sep_by sep (map f vs)))
         = LSt (ts @ sep_by [TComma] (map g vs)) MIdle"
proof (cases vs)
  case Nil
  then show ?thesis by simp
next
  case (Cons x xs)
  have x: "settle (foldl lex_step (LSt ts MIdle) (f x)) = LSt (ts @ g x) MIdle"
    by (rule assms) (simp add: Cons)
  have "settle (foldl lex_step (foldl lex_step (LSt ts MIdle) (f x))
           (concat (map (\<lambda>y. sep @ f y) xs)))
        = LSt ((ts @ g x) @ concat (map (\<lambda>y. [TComma] @ g y) xs)) MIdle"
    by (rule lex_commas[OF _ _ x]) (simp_all add: assms Cons)
  then show ?thesis by (simp add: Cons sep_by_cons map_map comp_def)
qed

lemma lex_close:
  assumes "settle st = LSt ts MIdle"
  shows "lex_step st CHR '']'' = LSt (ts @ [TRBrack]) MIdle"
    and "lex_step st CHR ''}'' = LSt (ts @ [TRBrace]) MIdle"
proof -
  have "lex_step st CHR '']'' = lex_step (settle st) CHR '']''"
    by (rule settle_step) (simp add: num_end_def)
  then show "lex_step st CHR '']'' = LSt (ts @ [TRBrack]) MIdle"
    by (simp add: assms lex_idle_def is_json_ws_def)
  have "lex_step st CHR ''}'' = lex_step (settle st) CHR ''}''"
    by (rule settle_step) (simp add: num_end_def)
  then show "lex_step st CHR ''}'' = LSt (ts @ [TRBrace]) MIdle"
    by (simp add: assms lex_idle_def is_json_ws_def)
qed

lemma lex_stringify:
  "wfj j \<Longrightarrow> settle (foldl lex_step (LSt ts MIdle) (stringify j)) = LSt (ts @ toks j) MIdle"
proof (induction j arbitrary: ts)
  case JNull
  show ?case by (simp add: lex_idle_def is_json_ws_def is_digit_def)
next
  case (JBool b)
  show ?case by (simp add: lex_idle_def is_json_ws_def is_digit_def)
next
  case (JNum l)
  then show ?case by (simp add: lex_lit)
next
  case (JStr s)
  show ?case by (simp add: lex_quote)
next
  case (JArr vs)
  have el: "settle (foldl lex_step (LSt (ts @ [TLBrack]) MIdle) (sep_by '','' (map stringify vs)))
      = LSt ((ts @ [TLBrack]) @ sep_by [TComma] (map toks vs)) MIdle"
    by (rule lex_sep_by) (use JArr lex_comma_sep(1) in auto)
  show ?case
    by (simp add: lex_idle_def is_json_ws_def lex_close(1)[OF el])
next
  case (JObj kvs)
  have m: "settle (foldl lex_step (LSt ts MIdle) (member_text (map_prod id stringify kv)))
      = LSt (ts @ member_toks (map_prod id toks kv)) MIdle" if "kv \<in> set kvs" for kv ts
  proof -
    have "wfj (snd kv)" using JObj.prems that by auto
    then have "settle (foldl lex_step (LSt (ts @ [TStr (ustr (fst kv)), TColon]) MIdle) (stringify (snd kv)))
      = LSt ((ts @ [TStr (ustr (fst kv)), TColon]) @ toks (snd kv)) MIdle"
      using JObj.IH[of kv "snd kv"] that by (cases kv) auto
    then show ?thesis
      by (simp add: member_text_def member_toks_def lex_quote lex_idle_def is_json_ws_def)
  qed
  have el: "settle (foldl lex_step (LSt (ts @ [TLBrace]) MIdle)
        (sep_by '','' (map (\<lambda>kv. member_text (map_prod id stringify kv)) kvs)))
      = LSt ((ts @ [TLBrace]) @ sep_by [TComma] (map (\<lambda>kv. member_toks (map_prod id toks kv)) kvs)) MIdle"
    by (rule lex_sep_by) (use m lex_comma_sep(1) in auto)
  show ?case
    by (simp add: lex_idle_def is_json_ws_def lex_close(2)[OF el[unfolded append_assoc]] comp_def)
qed

subsection \<open>The automaton on the tokens of a value\<close>

lemma pstep_fail [simp]: "foldl pstep PFail ts = PFail"
  by (induction ts) auto

lemma inj_ustr: "ustr a = ustr b \<longleftrightarrow> a = b"
  unfolding ustr_def by (rule inj_map_eq_map) (simp add: inj_on_def)

lemma update_fresh: "k \<notin> fst ` set al \<Longrightarrow> AList.update k v al = al @ [(k, v)]"
  by (induction al) auto

lemma p_commas_arr:
  assumes "\<And>v st. v \<in> set vs \<Longrightarrow> expects_value st \<Longrightarrow> foldl pstep (PSt st) (g v) = deliver (h v) st"
  shows "foldl pstep (PSt (FArrV acc # st)) (concat (map (\<lambda>y. [TComma] @ g y) vs))
         = PSt (FArrV (acc @ map h vs) # st)"
  using assms
proof (induction vs arbitrary: acc)
  case Nil
  then show ?case by simp
next
  case (Cons y vs)
  have "foldl pstep (PSt (FArrC acc # st)) (g y) = deliver (h y) (FArrC acc # st)"
    by (rule Cons.prems) simp_all
  then show ?case using Cons.IH[of "acc @ [h y]"] Cons.prems by simp
qed

lemma p_members:
  assumes "\<And>kv st. kv \<in> set kvs \<Longrightarrow> expects_value st \<Longrightarrow>
              foldl pstep (PSt st) (toks (snd kv)) = deliver (parsed (snd kv)) st"
    and "distinct (map fst kvs)" and "fst ` set kvs \<inter> {k. ustr k \<in> fst ` set acc} = {}"
  shows "foldl pstep (PSt (FObjV acc # st))
           (concat (map (\<lambda>kv. [TComma] @ member_toks (map_prod id toks kv)) kvs))
         = PSt (FObjV (acc @ map (map_prod ustr parsed) kvs) # st)"
  using assms
proof (induction kvs arbitrary: acc)
  case Nil
  then show ?case by simp
next
  case (Cons kv kvs)
  obtain k v where kv: "kv = (k, v)" by (cases kv)
  have v: "foldl pstep (PSt (FObjC acc (ustr k) # st)) (toks v)
        = deliver (parsed v) (FObjC acc (ustr k) # st)"
    using Cons.prems(1)[of kv "FObjC acc (ustr k) # st"] by (simp add: kv)
  have fresh: "ustr k \<notin> fst ` set acc" using Cons.prems(3) by (auto simp: kv)
  have disj: "fst ` set kvs \<inter> {k'. ustr k' \<in> fst ` set (acc @ [(ustr k, parsed v)])} = {}"
    using Cons.prems(2,3) by (auto simp: kv inj_ustr)
  have "foldl pstep (PSt (FObjV (acc @ [(ustr k, parsed v)]) # st))
           (concat (map (\<lambda>kv. [TComma] @ member_toks (map_prod id toks kv)) kvs))
         = PSt (FObjV ((acc @ [(ustr k, parsed v)]) @ map (map_prod ustr parsed) kvs) # st)"
    by (rule Cons.IH) (use Cons.prems disj in auto)
  then show ?case
    by (simp add: kv member_toks_def v update_fresh[OF fresh])
qed

lemma parsed_eq: "parsed = map_json ustr"
  by (simp add: fun_eq_iff parsed_def)

lemma parsed_simps [simp]:
  "parsed JNull = JNull" "parsed (JBool b) = JBool b" "parsed (JNum l) = JNum l"
  "parsed (JStr x) = JStr (ustr x)" "parsed (JArr vs) = JArr (map parsed vs)"
  "parsed (JObj kvs) = JObj (map (map_prod ustr parsed) kvs)"
  by (simp_all add: parsed_eq)

lemma pstep_tok [simp]:
  "pstep (PSt st) (TNum n) = deliver (JNum n) st"
  "pstep (PSt st) TTrue = deliver (JBool True) st"
  "pstep (PSt st) TFalse = deliver (JBool False) st"
  "pstep (PSt st) TNull = deliver JNull st"
  "pstep (PSt st) TLBrack = (if expects_value st then PSt (FArr0 # st) else PFail)"
  "pstep (PSt st) TLBrace = (if expects_value st then PSt (FObj0 # st) else PFail)"
  "pstep (PSt (FArr0 # r)) TRBrack = deliver (JArr []) r"
  "pstep (PSt (FArrV vs # r)) TRBrack = deliver (JArr vs) r"
  "pstep (PSt (FObj0 # r)) TRBrace = deliver (JObj []) r"
  "pstep (PSt (FObjV kvs # r)) TRBrace = deliver (JObj kvs) r"
  "pstep (PSt (FArrV vs # r)) TComma = PSt (FArrC vs # r)"
  "pstep (PSt (FObjV kvs # r)) TComma = PSt (FObjN kvs # r)"
  "pstep (PSt (FObjK kvs k # r)) TColon = PSt (FObjC kvs k # r)"
  "pstep (PSt (FObj0 # r)) (TStr s) = PSt (FObjK [] s # r)"
  "pstep (PSt (FObjN kvs # r)) (TStr s) = PSt (FObjK kvs s # r)"
  by simp_all

lemma pstep_str_value:
  "expects_value st \<Longrightarrow> pstep (PSt st) (TStr s) = deliver (JStr s) st"
  by (cases st rule: expects_value.cases) auto

declare pstep.simps(1) [simp del]

lemma parse_toks:
  "wfj j \<Longrightarrow> expects_value st \<Longrightarrow> foldl pstep (PSt st) (toks j) = deliver (parsed j) st"
proof (induction j arbitrary: st)
  case (JArr vs)
  show ?case
  proof (cases vs)
    case Nil
    then show ?thesis using JArr.prems by simp
  next
    case (Cons x xs)
    have x: "foldl pstep (PSt (FArr0 # st)) (toks x) = deliver (parsed x) (FArr0 # st)"
      using JArr.IH[of x "FArr0 # st"] JArr.prems by (simp add: Cons)
    have "foldl pstep (PSt (FArrV [parsed x] # st)) (concat (map (\<lambda>y. [TComma] @ toks y) xs))
         = PSt (FArrV ([parsed x] @ map parsed xs) # st)"
      by (rule p_commas_arr) (use JArr Cons in auto)
    then show ?thesis using JArr.prems(2) x
      by (simp add: Cons sep_by_cons comp_def)
  qed
next
  case (JObj kvs)
  have el: "foldl pstep (PSt st') (toks (snd kv)) = deliver (parsed (snd kv)) st'"
    if "kv \<in> set kvs" "expects_value st'" for kv st'
    using JObj.IH[of kv "snd kv" st'] JObj.prems(1) that by (cases kv) auto
  show ?case
  proof (cases kvs)
    case Nil
    then show ?thesis using JObj.prems by simp
  next
    case (Cons x xs)
    obtain k v where kv: "x = (k, v)" by (cases x)
    have v: "foldl pstep (PSt (FObjC [] (ustr k) # st)) (toks v)
        = deliver (parsed v) (FObjC [] (ustr k) # st)"
      using el[of x "FObjC [] (ustr k) # st"] by (simp add: Cons kv)
    have "foldl pstep (PSt (FObjV [(ustr k, parsed v)] # st))
           (concat (map (\<lambda>kv. [TComma] @ member_toks (map_prod id toks kv)) xs))
         = PSt (FObjV ([(ustr k, parsed v)] @ map (map_prod ustr parsed) xs) # st)"
      by (rule p_members) (use el JObj.prems(1) Cons kv in \<open>auto simp: inj_ustr\<close>)
    then show ?thesis using JObj.prems(2) v
      by (simp add: Cons kv sep_by_cons member_toks_def comp_def)
  qed
qed (simp_all add: pstep_str_value)

theorem JSON_parse_stringify:
  assumes "wfj j"
  shows "JSON_parse (stringify j) = Some (parsed j)"
proof -
  have "lex (stringify j) = lex_finish (settle (foldl lex_step (LSt [] MIdle) (stringify j)))"
    unfolding lex_def by (rule settle_finish)
  also have "\<dots> = Some (toks j)" by (simp add: lex_stringify[OF assms])
  finally show ?thesis
    by (simp add: JSON_parse_def parse_toks[OF assms])
qed

subsection \<open>Reading back what was written\<close>

lemma of_ustr_ustr [simp]: "of_ustr (ustr s) = Some s"
proof -
  have "list_all (\<lambda>n. n < 256) (map (of_char :: char \<Rightarrow> nat) s)"
    by (induction s) auto
  moreover have "map char_of (map (of_char :: char \<Rightarrow> nat) s) = s"
    by (induction s) auto
  ultimately show ?thesis by (simp add: of_ustr_def ustr_def)
qed

lemma those_map_Some: "(\<And>x. x \<in> set xs \<Longrightarrow> f x = Some (h x)) \<Longrightarrow> those (map f xs) = Some (map h xs)"
  by (induction xs) auto

lemma decode_strs [simp]:
  "those (map (decode_str \<circ> (parsed \<circ> JStr)) os) = Some os"
  using those_map_Some[of os "decode_str \<circ> (parsed \<circ> JStr)" id] by simp

lemma parse_item_entity: "parse_item (stringify (entity_json e)) = ItemEntity e"
proof -
  have "wfj (entity_json e)" by (simp add: entity_json_def)
  then have p: "JSON_parse (stringify (entity_json e)) = Some (parsed (entity_json e))"
    by (rule JSON_parse_stringify)
  show ?thesis unfolding parse_item_def p
    by (simp add: entity_json_def decode_entity_def field_def inj_ustr)
qed

lemma parse_item_relation: "parse_item (stringify (relation_json r)) = ItemRelation r"
proof -
  have "wfj (relation_json r)" by (simp add: relation_json_def)
  then have p: "JSON_parse (stringify (relation_json r)) = Some (parsed (relation_json r))"
    by (rule JSON_parse_stringify)
  show ?thesis unfolding parse_item_def p
    by (simp add: relation_json_def decode_relation_def field_def inj_ustr)
qed

subsection \<open>Lines that are no record\<close>

lemma deliver_done: "deliver v st = PDone w \<Longrightarrow> w = v \<and> st = []"
  by (cases "(v, st)" rule: deliver.cases) auto

lemma pstep_done_obj: "pstep S t = PDone (JObj kvs) \<Longrightarrow> t = TRBrace"
proof (cases S)
  case (PSt st)
  assume "pstep S t = PDone (JObj kvs)"
  then show ?thesis using PSt
    by (cases t) (auto simp: pstep.simps(1) dest!: deliver_done split: list.splits frame.splits if_splits)
qed auto

lemma parse_obj_last:
  assumes "foldl pstep (PSt []) ts = PDone (JObj kvs)"
  shows "ts \<noteq> [] \<and> last ts = TRBrace"
proof (cases ts rule: rev_cases)
  case Nil
  then show ?thesis using assms by simp
next
  case (snoc ts' t)
  then show ?thesis using assms pstep_done_obj by auto
qed

lemma literal_token_not_brace [simp]: "literal_token k \<noteq> TRBrace" "literal_token k \<noteq> TLBrace"
  by (cases k; simp)+

lemma lex_idle_last:
  assumes "lex_finish (lex_idle ts c) = Some us" "\<not> is_json_ws c" "c \<noteq> CHR ''}''"
  shows "us \<noteq> [] \<and> last us \<noteq> TRBrace"
  using assms by (auto simp: lex_idle_def split: if_splits)

lemma lex_step_last:
  assumes "lex_finish (lex_step st c) = Some us" "\<not> is_json_ws c" "c \<noteq> CHR ''}''"
  shows "us \<noteq> [] \<and> last us \<noteq> TRBrace"
proof (cases st)
  case LFail
  then show ?thesis using assms by simp
next
  case (LSt ts m)
  show ?thesis
  proof (cases m)
    case MIdle
    then show ?thesis using assms LSt lex_idle_last by simp
  next
    case (MNum nm lit)
    show ?thesis
    proof (cases "num_step nm c")
      case None
      then show ?thesis using assms LSt MNum lex_idle_last[of "ts @ [TNum lit]" c us]
        by (auto split: if_splits)
    next
      case (Some a)
      then show ?thesis using assms LSt MNum by (auto split: if_splits)
    qed
  qed (use assms LSt in \<open>auto split: if_splits option.splits\<close>)
qed

lemma not_obj_by_last:
  assumes "l \<noteq> []" "\<not> is_json_ws (last l)" "last l \<noteq> CHR ''}''"
  shows "JSON_parse l \<noteq> Some (JObj kvs)"
proof
  assume p: "JSON_parse l = Some (JObj kvs)"
  obtain s c where l: "l = s @ [c]" using assms(1) by (cases l rule: rev_cases) auto
  from p obtain us where us: "lex l = Some us" "foldl pstep (PSt []) us = PDone (JObj kvs)"
    by (auto simp: JSON_parse_def split: option.splits pstate.splits)
  have "lex_finish (lex_step (foldl lex_step (LSt [] MIdle) s) c) = Some us"
    using us(1) by (simp add: lex_def l)
  then have "us \<noteq> [] \<and> last us \<noteq> TRBrace"
    using assms(2,3) lex_step_last by (simp add: l)
  then show False using parse_obj_last[OF us(2)] by simp
qed

lemma harmlessI: "(\<And>kvs. JSON_parse l = Some (JObj kvs) \<Longrightarrow> kvs = []) \<Longrightarrow> harmless l"
  by (auto simp: harmless_def parse_item_def split: option.splits json.splits)

lemma closing_line_parse: "JSON_parse (spaces m @ ''}'') = None"
  by (simp add: JSON_parse_def lex_def lex_spaces lex_idle_def is_json_ws_def pstep.simps(1))

lemma literal_no_brace: "i < length (literal_text k) \<Longrightarrow> literal_text k ! i \<noteq> CHR ''{''"
  by (cases k) (auto simp: nth_Cons' )

lemma lex_empty_obj:
  assumes "lex_finish (lex_step (lex_step st CHR ''{'') CHR ''}'') = Some us"
  shows "\<exists>us'. us = us' @ [TLBrace, TRBrace]"
proof (cases st)
  case LFail
  then show ?thesis using assms by simp
next
  case (LSt ts m)
  show ?thesis
  proof (cases m)
    case (MLit k i)
    then show ?thesis using assms LSt literal_no_brace[of i k] by (auto split: if_splits)
  next
    case (MNum nm lit)
    have "num_step nm CHR ''{'' = None" by (cases nm) (auto simp: is_digit_def)
    then show ?thesis using assms LSt MNum
      by (auto simp: lex_idle_def is_json_ws_def split: if_splits)
  qed (use assms LSt in \<open>auto simp: lex_idle_def is_json_ws_def hex_val_def split: if_splits\<close>)
qed

lemma parse_empty_obj:
  assumes "foldl pstep (PSt []) (us' @ [TLBrace, TRBrace]) = PDone (JObj kvs)"
  shows "kvs = []"
proof (cases "foldl pstep (PSt []) us'")
  case (PSt st)
  then show ?thesis using assms by (auto split: if_splits dest: deliver_done)
qed (use assms in auto)

lemma empty_obj_line:
  assumes "JSON_parse (p @ ''{}'') = Some (JObj kvs)"
  shows "kvs = []"
proof -
  from assms obtain us where us: "lex (p @ ''{}'') = Some us"
      "foldl pstep (PSt []) us = PDone (JObj kvs)"
    by (auto simp: JSON_parse_def split: option.splits pstate.splits)
  have "lex_finish (lex_step (lex_step (foldl lex_step (LSt [] MIdle) p) CHR ''{'') CHR ''}'') = Some us"
    using us(1) by (simp add: lex_def)
  then obtain us' where "us = us' @ [TLBrace, TRBrace]" using lex_empty_obj by blast
  then show ?thesis using us(2) parse_empty_obj by blast
qed

lemma spaces_suffix:
  assumes "suffix l (spaces m)"
  shows "\<exists>k. l = spaces k"
proof -
  have "set l \<subseteq> {CHR 0x20}" using assms by (auto simp: suffix_def spaces_def dest!: arg_cong[where f=set])
  then have "replicate (length l) CHR 0x20 = l" by (intro replicate_length_same) auto
  then show ?thesis unfolding spaces_def by metis
qed

lemma trim_Nil [simp]: "trim [] = []"
  by (simp add: trim_def)

lemma harmless_suffix:
  assumes "line_shape l" "suffix l' l"
  shows "harmless l'"
proof (cases "l' = []")
  case True
  then show ?thesis by (simp add: harmless_def)
next
  case False
  from assms(1) consider
      (a) "l \<noteq> []" "\<not> is_json_ws (last l)" "last l \<noteq> CHR ''}''"
    | (b) p where "l = p @ ''{}''"
    | (c) m where "l = spaces m @ ''}''"
    by (auto simp: line_shape_def head_shape_def)
  then show ?thesis
  proof cases
    case a
    have "last l' = last l" using assms(2) False by (auto simp: suffix_def)
    then show ?thesis using a False not_obj_by_last[of l'] by (intro harmlessI) auto
  next
    case (b p)
    have "suffix l' ((p @ ''{'') @ ''}'')" using assms(2) b by simp
    then obtain zs where zs: "l' = zs @ ''}''" "suffix zs (p @ ''{'')"
      using False unfolding suffix_snoc by blast
    from zs(2) have "zs = [] \<or> (\<exists>r. zs = r @ ''{'')" unfolding suffix_snoc by blast
    then consider "l' = ''}''" | r where "l' = r @ ''{}''" using zs(1) by auto
    then show ?thesis
    proof cases
      case 1
      then show ?thesis using closing_line_parse[of 0] by (intro harmlessI) (simp add: spaces_def)
    next
      case (2 r)
      then show ?thesis using empty_obj_line by (intro harmlessI) auto
    qed
  next
    case (c m)
    have "suffix l' (spaces m @ ''}'')" using assms(2) c by simp
    then obtain r where "l' = r @ ''}''" "suffix r (spaces m)"
      using False unfolding suffix_snoc by blast
    then obtain k where "l' = spaces k @ ''}''" using spaces_suffix by blast
    then show ?thesis using closing_line_parse by (intro harmlessI) simp
  qed
qed

subsection \<open>The lines of an indented rendering\<close>

lemma head_shape_prefix:
  assumes "head_shape l"
  shows "head_shape (p @ l)"
proof -
  from assms consider (a) "l \<noteq> []" "\<not> is_json_ws (last l)" "last l \<noteq> CHR ''}''"
    | (b) q where "l = q @ ''{}''"
    unfolding head_shape_def by blast
  then show ?thesis
  proof cases
    case a
    then show ?thesis unfolding head_shape_def by simp
  next
    case (b q)
    then have "p @ l = (p @ q) @ ''{}''" by simp
    then show ?thesis unfolding head_shape_def by blast
  qed
qed

lemma head_shape_comma: "head_shape (l @ '','')"
  by (simp add: head_shape_def is_json_ws_def)

lemma line_shape_add_comma:
  assumes "\<forall>l \<in> set ls. line_shape l"
  shows "\<forall>l \<in> set (add_comma ls). line_shape l"
proof (cases "ls = []")
  case True
  then show ?thesis by (simp add: add_comma_def)
next
  case False
  have "line_shape l" if "l \<in> set (butlast ls)" for l
    using assms that by (meson in_set_butlastD)
  moreover have "line_shape (last ls @ '','')"
    unfolding line_shape_def using head_shape_comma by blast
  ultimately show ?thesis using False by (simp add: add_comma_def)
qed

lemma line_shape_comma_lines:
  assumes "\<forall>b \<in> set bs. \<forall>l \<in> set b. line_shape l"
  shows "\<forall>l \<in> set (comma_lines bs). line_shape l"
  using assms
proof (induction bs rule: comma_lines.induct)
  case 1
  then show ?case by simp
next
  case (2 ls)
  then show ?case by simp
next
  case (3 ls ms r)
  have "\<forall>l \<in> set (add_comma ls). line_shape l"
    by (rule line_shape_add_comma) (use 3 in simp)
  moreover have "\<forall>l \<in> set (comma_lines (ms # r)). line_shape l"
    by (rule 3) (use 3 in simp)
  ultimately show ?case by (simp add: ball_Un)
qed

lemma block_ok_lines:
  assumes "block_ok ls"
  shows "\<forall>l \<in> set (case ls of [] \<Rightarrow> [] | l # ls' \<Rightarrow> (p @ l) # ls'). line_shape l"
proof (cases ls)
  case Nil
  then show ?thesis by simp
next
  case (Cons l ls')
  then have "line_shape (p @ l)" "\<forall>x \<in> set ls'. line_shape x"
    using assms by (auto simp: block_ok_def line_shape_def head_shape_prefix)
  then show ?thesis by (simp add: Cons)
qed

lemma indent_lines: "block_ok ls \<Longrightarrow> \<forall>l \<in> set (indent n ls). line_shape l"
  unfolding indent_def by (rule block_ok_lines)

lemma member_lines_shape:
  assumes "block_ok (snd kv n)"
  shows "\<forall>l \<in> set (member_lines n kv). line_shape l"
  using block_ok_lines[OF assms, of "spaces n @ quote (fst kv) @ '': ''"]
  by (simp add: member_lines_def)

lemma scalar_block: "head_shape l \<Longrightarrow> block_ok [l]"
  by (simp add: block_ok_def line_shape_def)

lemma container_block:
  assumes "\<forall>l \<in> set ls. line_shape l" "head_shape op" "line_shape cl"
  shows "block_ok (op # ls @ [cl])"
  using assms by (simp add: block_ok_def line_shape_def)

lemma pretty_shape: "wfj j \<Longrightarrow> block_ok (pretty j n)"
proof (induction j arbitrary: n)
  case JNull
  show ?case by (simp add: scalar_block head_shape_def is_json_ws_def)
next
  case (JBool b)
  show ?case by (simp add: scalar_block head_shape_def is_json_ws_def)
next
  case (JNum l)
  then have "l \<noteq> []" "is_digit (last l)"
    by (auto simp: nat_of_lit_def list_all_iff split: if_splits)
  then have "head_shape l" by (auto simp: head_shape_def is_json_ws_def is_digit_def)
  then show ?case by (simp add: scalar_block)
next
  case (JStr s)
  have "head_shape (quote s)" by (simp add: head_shape_def quote_def is_json_ws_def)
  then show ?case by (simp add: scalar_block)
next
  case (JArr vs)
  show ?case
  proof (cases "vs = []")
    case True
    then show ?thesis by (simp add: scalar_block head_shape_def is_json_ws_def)
  next
    case False
    have "\<forall>l \<in> set (indent (n + 2) (pretty v (n + 2))). line_shape l" if "v \<in> set vs" for v
      using JArr that by (intro indent_lines) auto
    then have "\<forall>b \<in> set (map (\<lambda>f. indent (n + 2) (f (n + 2))) (map pretty vs)). \<forall>l \<in> set b. line_shape l"
      by simp
    then have "\<forall>l \<in> set (comma_lines (map (\<lambda>f. indent (n + 2) (f (n + 2))) (map pretty vs))). line_shape l"
      by (rule line_shape_comma_lines)
    moreover have "head_shape ''[''" "line_shape (spaces n @ '']'')"
      by (auto simp: line_shape_def head_shape_def is_json_ws_def)
    ultimately have "block_ok (''['' # comma_lines (map (\<lambda>f. indent (n + 2) (f (n + 2))) (map pretty vs)) @ [spaces n @ '']''])"
      by (intro container_block)
    then show ?thesis using False by simp
  qed
next
  case (JObj kvs)
  show ?case
  proof (cases "kvs = []")
    case True
    then show ?thesis by (simp add: scalar_block head_shape_def)
  next
    case False
    have "block_ok (pretty (snd kv) m)" if "kv \<in> set kvs" for kv m
      using JObj.IH[of kv "snd kv" m] JObj.prems that by (cases kv) auto
    then have "\<forall>l \<in> set (member_lines (n + 2) (map_prod id pretty kv)). line_shape l" if "kv \<in> set kvs" for kv
      using that by (intro member_lines_shape) simp
    then have "\<forall>b \<in> set (map (member_lines (n + 2)) (map (map_prod id pretty) kvs)). \<forall>l \<in> set b. line_shape l"
      by simp
    then have "\<forall>l \<in> set (comma_lines (map (member_lines (n + 2)) (map (map_prod id pretty) kvs))). line_shape l"
      by (rule line_shape_comma_lines)
    moreover have "head_shape ''{''" "line_shape (spaces n @ ''}'')"
      by (auto simp: line_shape_def head_shape_def is_json_ws_def)
    ultimately have "block_ok (''{'' # comma_lines (map (member_lines (n + 2)) (map (map_prod id pretty) kvs)) @ [spaces n @ ''}''])"
      by (intro container_block)
    then show ?thesis using False by simp
  qed
qed

subsection \<open>Lines and joins\<close>

lemma join_nl_Cons: "ls \<noteq> [] \<Longrightarrow> join_nl (l # ls) = l @ CHR 0x0A # join_nl ls"
  by (cases ls) auto

lemma join_nl_append:
  "a \<noteq> [] \<Longrightarrow> b \<noteq> [] \<Longrightarrow> join_nl (a @ b) = join_nl a @ CHR 0x0A # join_nl b"
proof (induction a rule: join_nl.induct)
  case (2 l)
  then show ?case by (simp add: join_nl_Cons)
next
  case (3 l m ls)
  then show ?case by simp
qed simp

lemma split_nl_nonl: "CHR 0x0A \<notin> set l \<Longrightarrow> split_nl l = [l]"
  by (induction l) auto

lemma split_nl_line:
  "CHR 0x0A \<notin> set l \<Longrightarrow> split_nl (l @ CHR 0x0A # r) = l # split_nl r"
  by (induction l) auto

lemma split_join:
  "ls \<noteq> [] \<Longrightarrow> \<forall>l \<in> set ls. CHR 0x0A \<notin> set l \<Longrightarrow> split_nl (join_nl ls) = ls"
proof (induction ls rule: join_nl.induct)
  case (2 l)
  then show ?case by (simp add: split_nl_nonl)
next
  case (3 l m ls)
  then show ?case by (simp add: split_nl_line)
qed simp

text \<open>A suffix of a joined text is a suffix of one line followed by the remaining lines.\<close>

lemma suffix_join_lines:
  assumes "H \<noteq> []" "\<forall>l \<in> set H. CHR 0x0A \<notin> set l" "suffix S (join_nl H)"
  shows "\<exists>J. split_nl S = J \<and> (\<forall>l \<in> set J. \<exists>h \<in> set H. suffix l h)"
  using assms
proof (induction H rule: join_nl.induct)
  case 1
  then show ?case by simp
next
  case (2 h)
  then have "CHR 0x0A \<notin> set S" by (auto simp: suffix_def)
  then show ?case using 2 by (simp add: split_nl_nonl)
next
  case (3 h m ls)
  let ?R = "join_nl (m # ls)"
  from 3(4) have "suffix S (h @ CHR 0x0A # ?R)" by simp
  then consider (a) "suffix S ?R" | (b) h' where "suffix h' h" "S = h' @ CHR 0x0A # ?R"
    by (auto simp: suffix_append suffix_Cons)
  then show ?case
  proof cases
    case a
    then show ?thesis using 3 by auto
  next
    case (b h')
    have "CHR 0x0A \<notin> set h'" using b(1) 3(3) by (auto simp: suffix_def)
    then have "split_nl S = h' # (m # ls)"
      using 3(3) by (simp add: b(2) split_nl_line split_join)
    then show ?thesis using b(1) by (auto intro: suffix_order.refl)
  qed
qed

lemma suffix_join_data:
  assumes "D \<noteq> []" "\<forall>l \<in> set (H @ D). CHR 0x0A \<notin> set l" "suffix S (join_nl (H @ D))"
    "length (join_nl D) \<le> length S"
  shows "\<exists>J. split_nl S = J @ D \<and> (\<forall>l \<in> set J. \<exists>h \<in> set H. suffix l h)"
  using assms
proof (induction H)
  case Nil
  then have "S = join_nl D" by (auto simp: suffix_def)
  then show ?case using Nil by (simp add: split_join)
next
  case (Cons h H)
  let ?R = "join_nl (H @ D)"
  from Cons have "suffix S (h @ CHR 0x0A # ?R)" by (simp add: join_nl_Cons)
  then consider (a) "suffix S ?R" | (b) h' where "suffix h' h" "S = h' @ CHR 0x0A # ?R"
    by (auto simp: suffix_append suffix_Cons)
  then show ?case
  proof cases
    case a
    then obtain J where "split_nl S = J @ D" "\<forall>l \<in> set J. \<exists>h \<in> set H. suffix l h"
      using Cons by auto
    then show ?thesis by auto
  next
    case (b h')
    have "CHR 0x0A \<notin> set h'" using b(1) Cons.prems(2) by (auto simp: suffix_def)
    then have "split_nl S = (h' # H) @ D"
      using Cons.prems(1,2) by (simp add: b(2) split_nl_line split_join)
    moreover have "\<forall>l \<in> set (h' # H). \<exists>x \<in> set (h # H). suffix l x"
      using b(1) by (auto intro: suffix_order.refl)
    ultimately show ?thesis by blast
  qed
qed

subsection \<open>First occurrence\<close>

lemma indexOf_Some:
  "indexOf s m = Some p \<Longrightarrow> p + length m \<le> length s"
proof (induction s arbitrary: p)
  case Nil
  then show ?case by (auto split: if_splits)
next
  case (Cons c cs)
  then show ?case by (auto split: if_splits dest: prefix_length_le)
qed

lemma indexOf_first:
  "\<exists>p. indexOf (a @ m @ b) m = Some p \<and> p \<le> length a"
proof (induction a)
  case Nil
  show ?case
  proof (cases "m @ b")
    case Nil
    then show ?thesis by simp
  next
    case (Cons c cs)
    have "prefix m (c # cs)" using Cons by (metis prefixI)
    then show ?thesis using Cons by simp
  qed
next
  case (Cons c a)
  then show ?case by auto
qed

subsection \<open>Trimming\<close>

lemma trim_no_right:
  "s \<noteq> [] \<Longrightarrow> \<not> is_js_space (last s) \<Longrightarrow> trim s = dropWhile is_js_space s"
proof -
  assume a: "s \<noteq> []" "\<not> is_js_space (last s)"
  let ?t = "dropWhile is_js_space s"
  have "?t \<noteq> []" using a by (metis dropWhile_eq_Nil_conv last_in_set)
  moreover have "last ?t = last s"
    using a by (metis calculation dropWhile_eq_drop last_drop length_greater_0_conv length_drop zero_less_diff drop_eq_Nil not_le)
  ultimately have "dropWhile is_js_space (rev ?t) = rev ?t"
    using a(2) by (cases ?t rule: rev_cases) auto
  then show ?thesis by (simp add: trim_def)
qed

lemma dropWhile_suffix: "suffix (dropWhile P s) s"
  by (metis suffix_dropWhile)

lemma dropWhile_keeps:
  assumes "b \<noteq> []" "\<not> P (hd b)"
  shows "\<exists>a'. dropWhile P (a @ b) = a' @ b"
proof (cases "\<forall>x \<in> set a. P x")
  case True
  then have "dropWhile P (a @ b) = dropWhile P b" by (simp add: dropWhile_append)
  also have "\<dots> = b" using assms by (cases b) auto
  finally show ?thesis by simp
next
  case False
  then have "dropWhile P (a @ b) = dropWhile P a @ b"
    by (metis dropWhile_append1 )
  then show ?thesis by blast
qed

subsection \<open>No line break inside a rendered line\<close>

lemma hex_digit_not_nl: "n < 16 \<Longrightarrow> hex_digit n \<noteq> CHR 0x0A"
proof
  assume "n < 16" "hex_digit n = CHR 0x0A"
  then have "hex_val (CHR 0x0A) = Some n" using hex_val_digit[of n] by simp
  then show False by (simp add: hex_val_def)
qed

lemma nl_esc_char: "CHR 0x0A \<notin> set (esc_char c)"
proof (cases "(of_char c :: nat) < 32")
  case True
  then have "(of_char c :: nat) div 16 < 16" "(of_char c :: nat) mod 16 < 16" by auto
  then have "hex_digit (of_char c div 16) \<noteq> CHR 0x0A" "hex_digit (of_char c mod 16) \<noteq> CHR 0x0A"
    by (simp_all add: hex_digit_not_nl)
  then show ?thesis by (auto simp: esc_char_def Let_def)
next
  case False
  then show ?thesis by (auto simp: esc_char_def Let_def)
qed

lemma nl_quote: "CHR 0x0A \<notin> set (quote s)"
  by (auto simp: quote_def nl_esc_char)

lemma set_sep_by: "set (sep_by s xs) \<subseteq> set s \<union> (\<Union>x \<in> set xs. set x)"
  by (induction s xs rule: sep_by.induct) auto

lemma nl_digits: "list_all is_digit l \<Longrightarrow> CHR 0x0A \<notin> set l"
  by (auto simp: list_all_iff is_digit_def)

lemma nl_lit: "nat_of_lit l \<noteq> None \<Longrightarrow> CHR 0x0A \<notin> set l"
  by (auto simp: nat_of_lit_def nl_digits split: if_splits)

lemma nl_stringify: "wfj j \<Longrightarrow> CHR 0x0A \<notin> set (stringify j)"
proof (induction j)
  case (JArr vs)
  have "set (sep_by '','' (map stringify vs)) \<subseteq> set '','' \<union> (\<Union>x \<in> set (map stringify vs). set x)"
    by (rule set_sep_by)
  then show ?case using JArr by auto
next
  case (JObj kvs)
  have "set (sep_by '','' (map member_text (map (map_prod id stringify) kvs)))
      \<subseteq> set '','' \<union> (\<Union>x \<in> set (map member_text (map (map_prod id stringify) kvs)). set x)"
    by (rule set_sep_by)
  moreover have "CHR 0x0A \<notin> set (member_text (map_prod id stringify kv))" if "kv \<in> set kvs" for kv
    using JObj.IH[of kv "snd kv"] JObj.prems that nl_quote
    by (cases kv) (auto simp: member_text_def)
  ultimately show ?case by auto
qed (auto simp: nl_quote nl_lit)

lemma nl_spaces: "CHR 0x0A \<notin> set (spaces n)"
  by (simp add: spaces_def)

lemma nl_add_comma:
  assumes "\<forall>l \<in> set ls. CHR 0x0A \<notin> set l"
  shows "\<forall>l \<in> set (add_comma ls). CHR 0x0A \<notin> set l"
proof (cases "ls = []")
  case True
  then show ?thesis by (simp add: add_comma_def)
next
  case False
  have "CHR 0x0A \<notin> set l" if "l \<in> set (butlast ls)" for l
    using assms that by (meson in_set_butlastD)
  moreover have "CHR 0x0A \<notin> set (last ls @ '','')"
    using assms False by simp
  ultimately show ?thesis using False by (simp add: add_comma_def)
qed

lemma nl_comma_lines:
  assumes "\<forall>b \<in> set bs. \<forall>l \<in> set b. CHR 0x0A \<notin> set l"
  shows "\<forall>l \<in> set (comma_lines bs). CHR 0x0A \<notin> set l"
  using assms
proof (induction bs rule: comma_lines.induct)
  case 1
  then show ?case by simp
next
  case (2 ls)
  then show ?case by simp
next
  case (3 ls ms r)
  have "\<forall>l \<in> set (add_comma ls). CHR 0x0A \<notin> set l"
    by (rule nl_add_comma) (use 3 in simp)
  moreover have "\<forall>l \<in> set (comma_lines (ms # r)). CHR 0x0A \<notin> set l"
    by (rule 3) (use 3 in simp)
  ultimately show ?case by (simp add: ball_Un)
qed

lemma nl_prefixed:
  assumes "\<forall>l \<in> set ls. CHR 0x0A \<notin> set l" "CHR 0x0A \<notin> set p"
  shows "\<forall>l \<in> set (case ls of [] \<Rightarrow> [] | l # ls' \<Rightarrow> (p @ l) # ls'). CHR 0x0A \<notin> set l"
  using assms by (cases ls) auto

lemma nl_pretty: "wfj j \<Longrightarrow> \<forall>l \<in> set (pretty j n). CHR 0x0A \<notin> set l"
proof (induction j arbitrary: n)
  case (JArr vs)
  have "\<forall>l \<in> set (indent (n + 2) (pretty v (n + 2))). CHR 0x0A \<notin> set l" if "v \<in> set vs" for v
    unfolding indent_def using JArr that by (intro nl_prefixed) (auto simp: nl_spaces)
  then have "\<forall>b \<in> set (map (\<lambda>f. indent (n + 2) (f (n + 2))) (map pretty vs)). \<forall>l \<in> set b. CHR 0x0A \<notin> set l"
    by simp
  then have "\<forall>l \<in> set (comma_lines (map (\<lambda>f. indent (n + 2) (f (n + 2))) (map pretty vs))). CHR 0x0A \<notin> set l"
    by (rule nl_comma_lines)
  then show ?case by (simp add: nl_spaces)
next
  case (JObj kvs)
  have "\<forall>l \<in> set (pretty (snd kv) m). CHR 0x0A \<notin> set l" if "kv \<in> set kvs" for kv m
    using JObj.IH[of kv "snd kv" m] JObj.prems that by (cases kv) auto
  then have "\<forall>l \<in> set (member_lines (n + 2) (map_prod id pretty kv)). CHR 0x0A \<notin> set l" if "kv \<in> set kvs" for kv
    using that nl_prefixed[of "pretty (snd kv) (n + 2)" "spaces (n + 2) @ quote (fst kv) @ '': ''"]
    by (simp add: member_lines_def nl_spaces nl_quote)
  then have "\<forall>b \<in> set (map (member_lines (n + 2)) (map (map_prod id pretty) kvs)). \<forall>l \<in> set b. CHR 0x0A \<notin> set l"
    by simp
  then have "\<forall>l \<in> set (comma_lines (map (member_lines (n + 2)) (map (map_prod id pretty) kvs))). CHR 0x0A \<notin> set l"
    by (rule nl_comma_lines)
  then show ?case by (simp add: nl_spaces)
qed (auto simp: nl_quote nl_lit)

subsection \<open>Decimal literals\<close>

lemma char_of_48: "char_of (48::nat) = CHR ''0''"
proof -
  have "(of_char (char_of (48::nat) :: char) :: nat) = of_char (CHR ''0'')" by simp
  then show ?thesis by (simp only: of_char_eq_iff)
qed

lemma digit_char: "d < 10 \<Longrightarrow> is_digit (char_of (48 + d)) \<and> (of_char (char_of (48 + d) :: char) :: nat) = 48 + d"
  by (simp add: is_digit_def)

lemma digits_of_props:
  "digits_of n \<noteq> [] \<and> list_all is_digit (digits_of n)
   \<and> (0 < n \<longrightarrow> hd (digits_of n) \<noteq> CHR ''0'')
   \<and> foldl (\<lambda>a c. 10 * a + (of_char c - 48)) 0 (digits_of n) = n"
proof (induction n rule: digits_of.induct)
  case (1 n)
  show ?case
  proof (cases "n < 10")
    case True
    have "n = 0" if "char_of (48 + n) = CHR ''0''"
    proof -
      have "(of_char (char_of (48 + n) :: char) :: nat) = 48" using that by simp
      then show ?thesis using digit_char[OF True] by simp
    qed
    then have "char_of (48 + n) = CHR ''0'' \<longleftrightarrow> n = 0" by (auto simp: char_of_48)
    then show ?thesis using True digit_char[of n]
      by (simp add: digits_of.simps[of n])
  next
    case False
    then have ih: "digits_of (n div 10) \<noteq> []" "list_all is_digit (digits_of (n div 10))"
      "hd (digits_of (n div 10)) \<noteq> CHR ''0''"
      "foldl (\<lambda>a c. 10 * a + (of_char c - 48)) 0 (digits_of (n div 10)) = n div 10"
      using 1 by auto
    have d: "is_digit (char_of (48 + n mod 10))" "(of_char (char_of (48 + n mod 10) :: char) :: nat) = 48 + n mod 10"
      using digit_char[of "n mod 10"] by auto
    show ?thesis using False ih d
      by (simp add: digits_of.simps[of n])
  qed
qed

lemma nat_of_lit_digits [simp]: "nat_of_lit (digits_of n) = Some n"
proof -
  have "n = 0 \<Longrightarrow> digits_of n = ''0''" by (simp add: digits_of.simps[of 0] char_of_48)
  then show ?thesis using digits_of_props[of n]
    by (cases "n = 0") (auto simp: nat_of_lit_def)
qed

subsection \<open>The saved file\<close>

lemma wfj_entity_json [simp]: "wfj (entity_json e)"
  by (simp add: entity_json_def)

lemma wfj_relation_json [simp]: "wfj (relation_json r)"
  by (simp add: relation_json_def)

lemma wfj_index_json [simp]: "wfj (index_json idx)"
  by (auto simp: index_json_def metadata_json_def entityIndex_json_def relfrom_json_def
      relto_json_def pair_json_def)

lemma pretty_nonempty: "pretty j n \<noteq> []"
  by (cases j) auto

lemma join_join: "P \<noteq> [] \<Longrightarrow> r \<noteq> [] \<Longrightarrow> join_nl (join_nl P # r) = join_nl (P @ r)"
  by (simp add: join_nl_Cons join_nl_append)

lemma fileContent_lines: "fileContent idx G = join_nl (header_lines idx @ data_lines G)"
proof -
  have "join_nl (join_nl (pretty (index_json idx) 0) # ([INDEX_MARKER_END, DATA_MARKER_START] @ data_lines G))
      = join_nl (pretty (index_json idx) 0 @ ([INDEX_MARKER_END, DATA_MARKER_START] @ data_lines G))"
    by (rule join_join) (simp_all add: pretty_nonempty)
  then show ?thesis
    by (simp add: fileContent_def header_lines_def data_lines_def stringify_pretty_def join_nl_Cons)
qed

lemma marker_shapes:
  "line_shape INDEX_MARKER_START" "line_shape INDEX_MARKER_END" "line_shape DATA_MARKER_START"
  by (simp_all add: line_shape_def head_shape_def is_json_ws_def INDEX_MARKER_START_def
      INDEX_MARKER_END_def DATA_MARKER_START_def)

lemma marker_nl:
  "CHR 0x0A \<notin> set INDEX_MARKER_START" "CHR 0x0A \<notin> set INDEX_MARKER_END"
  "CHR 0x0A \<notin> set DATA_MARKER_START"
  by (simp_all add: INDEX_MARKER_START_def INDEX_MARKER_END_def DATA_MARKER_START_def)

lemma header_lines_shape: "l \<in> set (header_lines idx) \<Longrightarrow> line_shape l"
  using pretty_shape[OF wfj_index_json, of idx 0]
  by (auto simp: header_lines_def marker_shapes block_ok_def)

lemma header_lines_nl: "l \<in> set (header_lines idx) \<Longrightarrow> CHR 0x0A \<notin> set l"
  using nl_pretty[OF wfj_index_json, of idx 0]
  by (auto simp: header_lines_def marker_nl)

lemma data_lines_nl: "l \<in> set (data_lines G) \<Longrightarrow> CHR 0x0A \<notin> set l"
  by (auto simp: data_lines_def nl_stringify)

lemma stringify_obj_ends:
  "stringify (JObj kvs) \<noteq> [] \<and> hd (stringify (JObj kvs)) = CHR ''{''
   \<and> last (stringify (JObj kvs)) = CHR ''}''"
  by simp

lemma data_line_ends:
  assumes "l \<in> set (data_lines G)"
  shows "l \<noteq> [] \<and> hd l = CHR ''{'' \<and> last l = CHR ''}''"
  using assms stringify_obj_ends
  by (auto simp: data_lines_def entity_json_def relation_json_def simp del: stringify.simps)

lemma not_space_braces [simp]: "\<not> is_js_space CHR ''{''" "\<not> is_js_space CHR ''}''" "\<not> is_js_space CHR ''=''"
  by (simp_all add: is_js_space_def)

lemma trim_nonblank: "l \<noteq> [] \<Longrightarrow> \<not> is_js_space (hd l) \<Longrightarrow> trim l \<noteq> []"
  by (cases l) (auto simp: trim_def dropWhile_eq_Nil_conv)

lemma collect_data:
  "collect_items (map parse_item (filter (\<lambda>line. trim line \<noteq> []) (data_lines G))) = Inr G"
proof -
  have "trim l \<noteq> []" if "l \<in> set (data_lines G)" for l
    using data_line_ends[OF that] by (intro trim_nonblank) simp_all
  then have nb: "filter (\<lambda>line. trim line \<noteq> []) (data_lines G) = data_lines G"
    by (intro filter_True) simp
  have r: "collect_items (map (\<lambda>r. parse_item (stringify (relation_json r))) rs)
      = Inr \<lparr>entities = [], relations = rs\<rparr>" for rs
    by (induction rs) (auto simp: parse_item_relation empty_graph_def)
  have e: "collect_items (map (\<lambda>e. parse_item (stringify (entity_json e))) es
        @ map (\<lambda>r. parse_item (stringify (relation_json r))) rs)
      = Inr \<lparr>entities = es, relations = rs\<rparr>" for es rs
    by (induction es) (auto simp: parse_item_entity r)
  show ?thesis unfolding nb by (simp add: data_lines_def e comp_def)
qed

lemma collect_harmless:
  assumes "\<forall>l \<in> set J. harmless l"
  shows "collect_items (map parse_item (filter (\<lambda>line. trim line \<noteq> []) (J @ D)))
       = collect_items (map parse_item (filter (\<lambda>line. trim line \<noteq> []) D))"
  using assms
proof (induction J)
  case Nil
  then show ?case by simp
next
  case (Cons l J)
  then show ?case by (auto simp: harmless_def split: sum.splits)
qed

lemma suffix_long:
  assumes "suffix s (a @ b)" "length b \<le> length s"
  shows "\<exists>x. s = x @ b"
proof -
  from assms(1) consider "suffix s b" | x where "suffix x a" "s = x @ b"
    by (auto simp: suffix_append)
  then show ?thesis
  proof cases
    case 1
    then have "s = b" using assms(2) by (metis suffix_length_le le_antisym suffix_order.eq_iff
          suffix_def append_eq_append_conv append_Nil length_append add_cancel_left_left length_0_conv)
    then show ?thesis by simp
  qed blast
qed

lemma header_suffix_harmless:
  assumes "\<forall>l \<in> set J. \<exists>h \<in> set (header_lines idx). suffix l h"
  shows "\<forall>l \<in> set J. harmless l"
  using assms header_lines_shape harmless_suffix by blast

lemma empty_data: "data_lines G = [] \<Longrightarrow> G = empty_graph"
  by (cases G) (simp add: data_lines_def empty_graph_def)

lemma header_last: "header_lines idx \<noteq> [] \<and> last (join_nl (header_lines idx)) = CHR ''=''
   \<and> join_nl (header_lines idx) \<noteq> []"
proof -
  have "header_lines idx = (INDEX_MARKER_START # pretty (index_json idx) 0 @ [INDEX_MARKER_END]) @ [DATA_MARKER_START]"
    by (simp add: header_lines_def)
  then have "join_nl (header_lines idx)
      = join_nl (INDEX_MARKER_START # pretty (index_json idx) 0 @ [INDEX_MARKER_END]) @ CHR 0x0A # DATA_MARKER_START"
    by (simp only: join_nl_append[OF _ not_Cons_self2] list.distinct not_False_eq_True join_nl.simps)
  then show ?thesis by (simp add: header_lines_def DATA_MARKER_START_def)
qed

text \<open>Whatever follows an occurrence of the data marker that is not later than the marker
  line reads back as the graph.\<close>

lemma parse_suffix:
  assumes "suffix S0 (fileContent idx G)"
    and "data_lines G \<noteq> [] \<Longrightarrow> length (join_nl (data_lines G)) < length S0"
  shows "parseLegacyFormat (trim S0) = Inr G"
proof (cases "data_lines G = []")
  case True
  let ?H = "header_lines idx"
  have F: "fileContent idx G = join_nl ?H" by (simp add: fileContent_lines True)
  have "suffix (trim S0) (join_nl ?H)"
  proof (cases "S0 = []")
    case True
    then show ?thesis by simp
  next
    case False
    then have "last S0 = CHR ''=''" using assms(1) header_last[of idx]
      by (auto simp: F suffix_def)
    then have "trim S0 = dropWhile is_js_space S0" using False by (intro trim_no_right) simp_all
    then show ?thesis using assms(1) F by (metis suffix_dropWhile suffix_order.trans)
  qed
  then obtain J where J: "split_nl (trim S0) = J" "\<forall>l \<in> set J. \<exists>h \<in> set ?H. suffix l h"
    using suffix_join_lines[of ?H "trim S0"] header_last[of idx] header_lines_nl by blast
  have "collect_items (map parse_item (filter (\<lambda>line. trim line \<noteq> []) (J @ [])))
      = collect_items (map parse_item (filter (\<lambda>line. trim line \<noteq> []) []))"
    by (rule collect_harmless) (rule header_suffix_harmless[OF J(2)])
  then show ?thesis using J(1) empty_data[OF True] by (simp add: parseLegacyFormat_def)
next
  case False
  let ?H = "header_lines idx" and ?D = "data_lines G"
  let ?K = "join_nl ?D"
  have hd_in: "hd ?D \<in> set ?D" "last ?D \<in> set ?D" using False by simp_all
  have K: "?K \<noteq> []" "hd ?K = CHR ''{''" "last ?K = CHR ''}''"
  proof -
    obtain d ds where d: "?D = d # ds" using False by (cases ?D) auto
    have "d \<noteq> []" "hd d = CHR ''{''" using data_line_ends[of d G] d by simp_all
    then show "?K \<noteq> []" "hd ?K = CHR ''{''" by (cases ds; simp add: d)+
    obtain es e where e: "?D = es @ [e]" using False by (cases ?D rule: rev_cases) auto
    have "e \<noteq> []" "last e = CHR ''}''" using data_line_ends[of e G] e by simp_all
    then show "last ?K = CHR ''}''"
      by (cases "es = []") (simp_all add: e join_nl_append)
  qed
  have F: "fileContent idx G = join_nl ?H @ CHR 0x0A # ?K"
    using False header_last[of idx] by (simp add: fileContent_lines join_nl_append)
  have "suffix S0 ((join_nl ?H @ [CHR 0x0A]) @ ?K)" using assms(1) F by simp
  then obtain X where X: "S0 = X @ ?K"
    using suffix_long[of S0 "join_nl ?H @ [CHR 0x0A]" ?K] assms(2)[OF False] by auto
  have "S0 \<noteq> []" "\<not> is_js_space (last S0)" using X K by simp_all
  then have t: "trim S0 = dropWhile is_js_space S0" by (rule trim_no_right)
  obtain a' where a': "dropWhile is_js_space (X @ ?K) = a' @ ?K"
    using dropWhile_keeps[of ?K is_js_space X] K by auto
  have S1: "trim S0 = a' @ ?K" using t a' by (simp only: X)
  have "suffix (trim S0) (join_nl (?H @ ?D))"
    using assms(1) t by (metis fileContent_lines suffix_dropWhile suffix_order.trans)
  moreover have "\<forall>l \<in> set (?H @ ?D). CHR 0x0A \<notin> set l"
    using header_lines_nl data_lines_nl by auto
  moreover have "length ?K \<le> length (trim S0)" by (simp add: S1)
  ultimately obtain J where J: "split_nl (trim S0) = J @ ?D"
      "\<forall>l \<in> set J. \<exists>h \<in> set ?H. suffix l h"
    using suffix_join_data[OF False, of ?H "trim S0"] by blast
  have "collect_items (map parse_item (filter (\<lambda>line. trim line \<noteq> []) (J @ ?D)))
      = collect_items (map parse_item (filter (\<lambda>line. trim line \<noteq> []) ?D))"
    by (rule collect_harmless) (rule header_suffix_harmless[OF J(2)])
  then show ?thesis using J(1) collect_data by (simp add: parseLegacyFormat_def)
qed

lemma data_marker_found:
  "\<exists>p. indexOf (fileContent idx G) DATA_MARKER_START = Some p
     \<and> (data_lines G \<noteq> [] \<longrightarrow>
          length (join_nl (data_lines G)) < length (fileContent idx G) - (p + length DATA_MARKER_START))"
proof -
  let ?H0 = "INDEX_MARKER_START # pretty (index_json idx) 0 @ [INDEX_MARKER_END]"
  let ?D = "data_lines G"
  let ?tail = "if ?D = [] then [] else CHR 0x0A # join_nl ?D"
  have "header_lines idx @ ?D = ?H0 @ (DATA_MARKER_START # ?D)" by (simp add: header_lines_def)
  then have "fileContent idx G = join_nl ?H0 @ CHR 0x0A # join_nl (DATA_MARKER_START # ?D)"
    unfolding fileContent_lines by (simp only: join_nl_append[OF _ list.distinct(2)] list.distinct not_False_eq_True)
  then have F: "fileContent idx G = (join_nl ?H0 @ [CHR 0x0A]) @ DATA_MARKER_START @ ?tail"
    by (simp add: join_nl_Cons)
  obtain p where p: "indexOf (fileContent idx G) DATA_MARKER_START = Some p"
      "p \<le> length (join_nl ?H0 @ [CHR 0x0A])"
    unfolding F using indexOf_first[of "join_nl ?H0 @ [CHR 0x0A]" DATA_MARKER_START ?tail] by blast
  have "length (fileContent idx G) = length (join_nl ?H0 @ [CHR 0x0A]) + length DATA_MARKER_START + length ?tail"
    by (subst F) simp
  then have "?D \<noteq> [] \<Longrightarrow> length (join_nl ?D) < length (fileContent idx G) - (p + length DATA_MARKER_START)"
    using p(2) by (simp split: if_splits)
  then show ?thesis using p(1) by blast
qed

theorem parse_saved:
  assumes "indexOf (fileContent idx G) DATA_MARKER_START = Some p"
  shows "parseLegacyFormat (trim (substring_from (fileContent idx G) (p + length DATA_MARKER_START))) = Inr G"
proof -
  from data_marker_found[of idx G] assms
  have len: "data_lines G \<noteq> [] \<Longrightarrow>
      length (join_nl (data_lines G)) < length (fileContent idx G) - (p + length DATA_MARKER_START)"
    by auto
  show ?thesis unfolding substring_from_def
    by (rule parse_suffix[where idx = idx]) (use len in \<open>simp_all add: suffix_drop\<close>)
qed

subsection \<open>The scanner on an indented rendering\<close>

lemma join_indent: "ls \<noteq> [] \<Longrightarrow> join_nl (indent n ls) = spaces n @ join_nl ls"
  by (cases ls rule: join_nl.cases) (auto simp: indent_def)

lemma join_member_lines:
  "snd kv n \<noteq> [] \<Longrightarrow>
   join_nl (member_lines n kv) = spaces n @ quote (fst kv) @ '': '' @ join_nl (snd kv n)"
  by (cases "snd kv n" rule: join_nl.cases) (auto simp: member_lines_def)

lemma join_add_comma: "ls \<noteq> [] \<Longrightarrow> join_nl (add_comma ls) = join_nl ls @ '',''"
proof (induction ls rule: join_nl.induct)
  case (3 l m ls)
  then have "add_comma (l # m # ls) = l # add_comma (m # ls)" by (simp add: add_comma_def)
  moreover have "add_comma (m # ls) \<noteq> []" by (simp add: add_comma_def)
  ultimately show ?case using 3 by (simp add: join_nl_Cons)
qed (simp_all add: add_comma_def)

lemma add_comma_nonempty: "ls \<noteq> [] \<Longrightarrow> add_comma ls \<noteq> []"
  by (simp add: add_comma_def)

lemma comma_lines_nonempty: "bs \<noteq> [] \<Longrightarrow> \<forall>b \<in> set bs. b \<noteq> [] \<Longrightarrow> comma_lines bs \<noteq> []"
  by (induction bs rule: comma_lines.induct) (auto simp: add_comma_def)

lemma join_comma_lines:
  "\<forall>b \<in> set bs. b \<noteq> [] \<Longrightarrow>
   join_nl (comma_lines bs) = sep_by ('','' @ [CHR 0x0A]) (map join_nl bs)"
proof (induction bs rule: comma_lines.induct)
  case (3 ls ms r)
  have "comma_lines (ms # r) \<noteq> []" using 3(2) by (intro comma_lines_nonempty) auto
  then show ?case using 3
    by (simp add: join_nl_append add_comma_nonempty join_add_comma)
qed simp_all

lemma join_container:
  "body \<noteq> [] \<Longrightarrow> join_nl (op # body @ [cl]) = op @ CHR 0x0A # join_nl body @ CHR 0x0A # cl"
  by (simp add: join_nl_Cons join_nl_append)

lemma lex_nl_close:
  assumes "settle st = LSt ts MIdle"
  shows "foldl lex_step st (CHR 0x0A # spaces n @ '']'') = LSt (ts @ [TRBrack]) MIdle"
    and "foldl lex_step st (CHR 0x0A # spaces n @ ''}'') = LSt (ts @ [TRBrace]) MIdle"
proof -
  have "lex_step st CHR 0x0A = lex_step (settle st) CHR 0x0A"
    by (rule settle_step) (simp add: num_end_def)
  then have nl: "lex_step st CHR 0x0A = LSt ts MIdle"
    by (simp add: assms lex_idle_def is_json_ws_def)
  show "foldl lex_step st (CHR 0x0A # spaces n @ '']'') = LSt (ts @ [TRBrack]) MIdle"
    by (simp add: nl lex_spaces lex_idle_def is_json_ws_def)
  show "foldl lex_step st (CHR 0x0A # spaces n @ ''}'') = LSt (ts @ [TRBrace]) MIdle"
    by (simp add: nl lex_spaces lex_idle_def is_json_ws_def)
qed

lemma lex_pretty:
  "wfj j \<Longrightarrow> settle (foldl lex_step (LSt ts MIdle) (join_nl (pretty j n))) = LSt (ts @ toks j) MIdle"
proof (induction j arbitrary: ts n)
  case JNull
  show ?case by (simp add: lex_idle_def is_json_ws_def is_digit_def)
next
  case (JBool b)
  show ?case by (simp add: lex_idle_def is_json_ws_def is_digit_def)
next
  case (JNum l)
  then show ?case by (simp add: lex_lit)
next
  case (JStr s)
  show ?case by (simp add: lex_quote)
next
  case (JArr vs)
  show ?case
  proof (cases "vs = []")
    case True
    then show ?thesis by (simp add: lex_idle_def is_json_ws_def)
  next
    case False
    let ?f = "\<lambda>v. spaces (n + 2) @ join_nl (pretty v (n + 2))"
    let ?bs = "map (\<lambda>f. indent (n + 2) (f (n + 2))) (map pretty vs)"
    have bs: "\<forall>b \<in> set ?bs. b \<noteq> []" by (auto simp: indent_def pretty_nonempty split: list.splits)
    have m: "map join_nl ?bs = map ?f vs" by (simp add: join_indent pretty_nonempty)
    have body: "join_nl (comma_lines ?bs) = sep_by ('','' @ [CHR 0x0A]) (map ?f vs)"
      using join_comma_lines[OF bs] by (simp only: m)
    have ne: "comma_lines ?bs \<noteq> []" using False bs by (intro comma_lines_nonempty) auto
    have "pretty (JArr vs) n = ''['' # comma_lines ?bs @ [spaces n @ '']'']"
      using False by (simp only: pretty.simps if_False)
    then have "join_nl (pretty (JArr vs) n)
        = ''['' @ CHR 0x0A # join_nl (comma_lines ?bs) @ CHR 0x0A # spaces n @ '']''"
      by (simp only: join_container[OF ne])
    then have tx: "join_nl (pretty (JArr vs) n)
        = ''['' @ CHR 0x0A # sep_by ('','' @ [CHR 0x0A]) (map ?f vs) @ CHR 0x0A # spaces n @ '']''"
      by (simp only: body)
    have el: "settle (foldl lex_step (LSt (ts @ [TLBrack]) MIdle) (sep_by ('','' @ [CHR 0x0A]) (map ?f vs)))
        = LSt ((ts @ [TLBrack]) @ sep_by [TComma] (map toks vs)) MIdle"
    proof (rule lex_sep_by)
      fix v ts' assume "v \<in> set vs"
      then show "settle (foldl lex_step (LSt ts' MIdle) (?f v)) = LSt (ts' @ toks v) MIdle"
        using JArr by (simp add: lex_spaces)
    qed (rule lex_comma_sep(2))
    have "foldl lex_step (LSt ts MIdle) ''['' = LSt (ts @ [TLBrack]) MIdle"
      by (simp add: lex_idle_def is_json_ws_def)
    then have "foldl lex_step (LSt ts MIdle) (join_nl (pretty (JArr vs) n))
        = LSt (((ts @ [TLBrack]) @ sep_by [TComma] (map toks vs)) @ [TRBrack]) MIdle"
      unfolding tx using lex_nl_close(1)[OF el, of n]
      by (simp only: foldl_append foldl_Cons append_Cons append_Nil) (simp add: lex_idle_def is_json_ws_def)
    then show ?thesis by simp
  qed
next
  case (JObj kvs)
  show ?case
  proof (cases "kvs = []")
    case True
    then show ?thesis by (simp add: lex_idle_def is_json_ws_def)
  next
    case False
    let ?f = "\<lambda>kv. spaces (n + 2) @ quote (fst kv) @ '': '' @ join_nl (pretty (snd kv) (n + 2))"
    let ?bs = "map (member_lines (n + 2)) (map (map_prod id pretty) kvs)"
    have bs: "\<forall>b \<in> set ?bs. b \<noteq> []"
      by (auto simp: member_lines_def pretty_nonempty split: list.splits)
    have m: "map join_nl ?bs = map ?f kvs" by (simp add: join_member_lines pretty_nonempty)
    have body: "join_nl (comma_lines ?bs) = sep_by ('','' @ [CHR 0x0A]) (map ?f kvs)"
      using join_comma_lines[OF bs] by (simp only: m)
    have ne: "comma_lines ?bs \<noteq> []" using False bs by (intro comma_lines_nonempty) auto
    have "pretty (JObj kvs) n = ''{'' # comma_lines ?bs @ [spaces n @ ''}'']"
      using False by (simp only: pretty.simps if_False)
    then have "join_nl (pretty (JObj kvs) n)
        = ''{'' @ CHR 0x0A # join_nl (comma_lines ?bs) @ CHR 0x0A # spaces n @ ''}''"
      by (simp only: join_container[OF ne])
    then have tx: "join_nl (pretty (JObj kvs) n)
        = ''{'' @ CHR 0x0A # sep_by ('','' @ [CHR 0x0A]) (map ?f kvs) @ CHR 0x0A # spaces n @ ''}''"
      by (simp only: body)
    have el: "settle (foldl lex_step (LSt (ts @ [TLBrace]) MIdle) (sep_by ('','' @ [CHR 0x0A]) (map ?f kvs)))
        = LSt ((ts @ [TLBrace]) @ sep_by [TComma] (map (\<lambda>kv. member_toks (map_prod id toks kv)) kvs)) MIdle"
    proof (rule lex_sep_by)
      fix kv ts' assume kv: "kv \<in> set kvs"
      have "wfj (snd kv)" using JObj.prems kv by auto
      then have "settle (foldl lex_step (LSt (ts' @ [TStr (ustr (fst kv)), TColon]) MIdle)
            (join_nl (pretty (snd kv) (n + 2))))
          = LSt ((ts' @ [TStr (ustr (fst kv)), TColon]) @ toks (snd kv)) MIdle"
        using JObj.IH[of kv "snd kv"] kv by (cases kv) auto
      then show "settle (foldl lex_step (LSt ts' MIdle) (?f kv))
          = LSt (ts' @ member_toks (map_prod id toks kv)) MIdle"
        by (simp add: member_toks_def lex_spaces lex_quote lex_idle_def is_json_ws_def)
    qed (rule lex_comma_sep(2))
    have "foldl lex_step (LSt ts MIdle) ''{'' = LSt (ts @ [TLBrace]) MIdle"
      by (simp add: lex_idle_def is_json_ws_def)
    then have "foldl lex_step (LSt ts MIdle) (join_nl (pretty (JObj kvs) n))
        = LSt (((ts @ [TLBrace]) @ sep_by [TComma] (map (\<lambda>kv. member_toks (map_prod id toks kv)) kvs)) @ [TRBrace]) MIdle"
      unfolding tx using lex_nl_close(2)[OF el, of n]
      by (simp only: foldl_append foldl_Cons append_Cons append_Nil) (simp add: lex_idle_def is_json_ws_def)
    then show ?thesis by (simp add: comp_def)
  qed
qed

theorem JSON_parse_pretty:
  assumes "wfj j"
  shows "JSON_parse (join_nl (pretty j 0)) = Some (parsed j)"
proof -
  have "lex (join_nl (pretty j 0))
      = lex_finish (settle (foldl lex_step (LSt [] MIdle) (join_nl (pretty j 0))))"
    unfolding lex_def by (rule settle_finish)
  also have "\<dots> = Some (toks j)" by (simp add: lex_pretty[OF assms])
  finally show ?thesis
    by (simp add: JSON_parse_def parse_toks[OF assms])
qed

subsection \<open>Reading back the index\<close>

lemma decode_list_map:
  "(\<And>x. x \<in> set xs \<Longrightarrow> f (parsed (g x)) = Some (h x)) \<Longrightarrow>
   decode_list f (parsed (JArr (map g xs))) = Some (map h xs)"
  using those_map_Some[of xs "\<lambda>x. f (parsed (g x))" h] by (simp add: comp_def)

lemma decode_str_parsed [simp]: "decode_str (parsed (JStr s)) = Some s"
  by simp

lemma decode_nat_parsed [simp]: "decode_nat (parsed (JNum (digits_of n))) = Some n"
  by simp

lemma decode_strs_parsed [simp]: "decode_list decode_str (parsed (JArr (map JStr xs))) = Some xs"
  using decode_list_map[of xs decode_str JStr id] by simp

lemma decode_relfrom [simp]:
  "decode_obj 2 (decode_pair ''relationType'' ''toEntity'') (parsed (relfrom_json p)) = Some p"
  by (simp add: relfrom_json_def decode_pair_def field_def inj_ustr)

lemma decode_relto [simp]:
  "decode_obj 2 (decode_pair ''relationType'' ''fromEntity'') (parsed (relto_json p)) = Some p"
  by (simp add: relto_json_def decode_pair_def field_def inj_ustr)

lemma decode_pair_json [simp]:
  "decode_obj 2 (decode_pair ''from'' ''to'') (parsed (pair_json p)) = Some p"
  by (simp add: pair_json_def decode_pair_def field_def inj_ustr)

lemma decode_metadata_json [simp]:
  "decode_obj 5 decode_metadata (parsed (metadata_json m)) = Some m"
  by (simp add: metadata_json_def decode_metadata_def field_def inj_ustr)

lemma decode_entityIndex_json [simp]:
  "decode_obj 6 decode_entityIndex (parsed (entityIndex_json ei)) = Some ei"
proof -
  have f: "decode_list (decode_obj 2 (decode_pair ''relationType'' ''toEntity''))
      (parsed (JArr (map relfrom_json (relationsFrom ei)))) = Some (relationsFrom ei)"
    using decode_list_map[of "relationsFrom ei" _ relfrom_json id] by simp
  have t: "decode_list (decode_obj 2 (decode_pair ''relationType'' ''fromEntity''))
      (parsed (JArr (map relto_json (relationsTo ei)))) = Some (relationsTo ei)"
    using decode_list_map[of "relationsTo ei" _ relto_json id] by simp
  show ?thesis
    using f t by (simp add: entityIndex_json_def decode_entityIndex_def field_def inj_ustr
        del: parsed_simps(5))
qed

lemma decode_entry_json:
  "f (parsed (g v)) = Some v \<Longrightarrow>
   decode_entry f (parsed (JArr [JStr k, g v])) = Some (k, v)"
  by simp

theorem decode_index_json: "decode_index (parsed (index_json idx)) = Some (reloaded idx)"
proof -
  have e: "decode_list (decode_entry (decode_obj 6 decode_entityIndex))
      (parsed (JArr (map (\<lambda>kv. JArr [JStr (fst kv), entityIndex_json (snd kv)]) (entityIndices idx))))
      = Some (entityIndices idx)"
    using decode_list_map[of "entityIndices idx" _ "\<lambda>kv. JArr [JStr (fst kv), entityIndex_json (snd kv)]" id]
    by simp
  have t: "decode_list (decode_entry (decode_list decode_str))
      (parsed (JArr (map (\<lambda>kv. JArr [JStr (fst kv), JArr (map JStr (snd kv))]) (typeIndices idx))))
      = Some (typeIndices idx)"
    using decode_list_map[of "typeIndices idx" _ "\<lambda>kv. JArr [JStr (fst kv), JArr (map JStr (snd kv))]" id]
      decode_strs_parsed
    by (simp del: parsed_simps(5) add: parsed_simps(5)[of "[_, _]"])
  have p: "decode_list (decode_obj 2 (decode_pair ''from'' ''to'')) (parsed (JArr (map pair_json ps))) = Some ps" for ps
    using decode_list_map[of ps _ pair_json id] by simp
  have r: "decode_list (decode_entry (decode_list (decode_obj 2 (decode_pair ''from'' ''to''))))
      (parsed (JArr (map (\<lambda>kv. JArr [JStr (fst kv), JArr (map pair_json (snd kv))]) (relationIndices idx))))
      = Some (relationIndices idx)"
    using decode_list_map[of "relationIndices idx" _ "\<lambda>kv. JArr [JStr (fst kv), JArr (map pair_json (snd kv))]" id]
      p
    by (simp del: parsed_simps(5) add: parsed_simps(5)[of "[_, _]"])
  have m: "decode_obj 5 decode_metadata (parsed (metadata_json (metadata idx))) = Some (metadata idx)"
    by simp
  have "parsed (index_json idx) = JObj
     [(ustr ''metadata'', parsed (metadata_json (metadata idx))),
      (ustr ''entityIndices'',
         parsed (JArr (map (\<lambda>kv. JArr [JStr (fst kv), entityIndex_json (snd kv)]) (entityIndices idx)))),
      (ustr ''typeIndices'',
         parsed (JArr (map (\<lambda>kv. JArr [JStr (fst kv), JArr (map JStr (snd kv))]) (typeIndices idx)))),
      (ustr ''relationIndices'',
         parsed (JArr (map (\<lambda>kv. JArr [JStr (fst kv), JArr (map pair_json (snd kv))])
                 (relationIndices idx))))]"
    by (simp add: index_json_def del: parsed_simps(5))
  then show ?thesis
    by (simp add: decode_index_def field_def inj_ustr e t r m reloaded_def
        del: parsed_simps decode_metadata_json)
qed

subsection \<open>A cut rendering does not parse\<close>

lemma lex_idle_shift:
  "lex_idle us c = LSt us' m' \<Longrightarrow> lex_idle (ts @ us) c = LSt (ts @ us') m'"
  "lex_idle us c = LFail \<Longrightarrow> lex_idle (ts @ us) c = LFail"
  by (auto simp: lex_idle_def split: if_splits)

lemma lex_step_shift:
  "lex_step (LSt us m) c = LSt us' m' \<Longrightarrow> lex_step (LSt (ts @ us) m) c = LSt (ts @ us') m'"
  "lex_step (LSt us m) c = LFail \<Longrightarrow> lex_step (LSt (ts @ us) m) c = LFail"
proof -
  show "lex_step (LSt us m) c = LSt us' m' \<Longrightarrow> lex_step (LSt (ts @ us) m) c = LSt (ts @ us') m'"
    using lex_idle_shift(1)[of "us @ [TNum _]" c us' m' ts] lex_idle_shift(1)[of us c us' m' ts]
    by (cases m) (auto split: if_splits option.splits)
  show "lex_step (LSt us m) c = LFail \<Longrightarrow> lex_step (LSt (ts @ us) m) c = LFail"
    using lex_idle_shift(2)[of "us @ [TNum _]" c ts] lex_idle_shift(2)[of us c ts]
    by (cases m) (auto split: if_splits option.splits)
qed

lemma lex_shift:
  "foldl lex_step (LSt us m) s = LSt us' m' \<Longrightarrow> foldl lex_step (LSt (ts @ us) m) s = LSt (ts @ us') m'"
proof (induction s arbitrary: us m)
  case Nil
  then show ?case by simp
next
  case (Cons c s)
  show ?case
  proof (cases "lex_step (LSt us m) c")
    case LFail
    then show ?thesis using Cons.prems by simp
  next
    case (LSt us1 m1)
    then show ?thesis using Cons lex_step_shift(1)[OF LSt, of ts] by simp
  qed
qed

lemma lex_shift_fail:
  "foldl lex_step (LSt us m) s = LFail \<Longrightarrow> foldl lex_step (LSt (ts @ us) m) s = LFail"
proof (induction s arbitrary: us m)
  case Nil
  then show ?case by simp
next
  case (Cons c s)
  show ?case
  proof (cases "lex_step (LSt us m) c")
    case LFail
    then show ?thesis using lex_step_shift(2)[OF LFail, of ts] by simp
  next
    case (LSt us1 m1)
    then show ?thesis using Cons lex_step_shift(1)[OF LSt, of ts] by simp
  qed
qed

lemma lex_step_grow: "lex_step (LSt us m) c = LSt us' m' \<Longrightarrow> prefix us us'"
  by (cases m) (auto simp: lex_idle_def split: if_splits option.splits)

lemma lex_grow: "foldl lex_step (LSt us m) s = LSt us' m' \<Longrightarrow> prefix us us'"
proof (induction s arbitrary: us m)
  case Nil
  then show ?case by simp
next
  case (Cons c s)
  show ?case
  proof (cases "lex_step (LSt us m) c")
    case LFail
    then show ?thesis using Cons.prems by simp
  next
    case (LSt us1 m1)
    then have "prefix us us1" by (rule lex_step_grow)
    moreover have "prefix us1 us'" using Cons LSt by simp
    ultimately show ?thesis by (rule prefix_order.trans)
  qed
qed

lemma lex_brace_token:
  assumes "lex_finish (lex_step st CHR ''}'') = Some us"
  shows "us \<noteq> []"
proof (cases st)
  case LFail
  then show ?thesis using assms by simp
next
  case (LSt ts m)
  then show ?thesis using assms
    by (cases m) (auto simp: lex_idle_def is_json_ws_def hex_val_def split: if_splits option.splits)
qed

lemma pstep_not_empty: "pstep S t \<noteq> PSt []"
proof (cases S)
  case (PSt st)
  have d: "deliver v st' \<noteq> PSt []" for v st'
    by (cases "(v, st')" rule: deliver.cases) auto
  show ?thesis using PSt d
    by (cases t) (auto simp: pstep.simps(1) split: list.splits frame.splits)
qed auto

lemma parse_empty_stack: "foldl pstep (PSt []) ts = PSt [] \<Longrightarrow> ts = []"
  by (cases ts rule: rev_cases) (auto simp: pstep_not_empty)

lemma pstep_after_done: "foldl pstep (PDone u) us = PDone v \<Longrightarrow> us = []"
  by (cases us) auto

lemma cut_not_parsed:
  assumes full: "JSON_parse (A @ B) \<noteq> None"
    and B: "B \<noteq> []" "last B = CHR ''}''"
    and A: "A \<noteq> []" "hd A = CHR ''{''"
  shows "JSON_parse A = None"
proof (rule ccontr)
  assume "JSON_parse A \<noteq> None"
  then obtain ts u where ts: "lex A = Some ts" "foldl pstep (PSt []) ts = PDone u"
    by (auto simp: JSON_parse_def split: option.splits pstate.splits)
  from full obtain tsF v where tsF: "lex (A @ B) = Some tsF" "foldl pstep (PSt []) tsF = PDone v"
    by (auto simp: JSON_parse_def split: option.splits pstate.splits)
  obtain A' where A': "A = CHR ''{'' # A'" using A by (cases A) auto
  obtain ts0 m where stA: "foldl lex_step (LSt [] MIdle) A = LSt ts0 m"
    using ts(1) by (cases "foldl lex_step (LSt [] MIdle) A") (auto simp: lex_def)
  have "foldl lex_step (LSt [TLBrace] MIdle) A' = LSt ts0 m"
    using stA by (simp add: A' lex_idle_def is_json_ws_def)
  then have "prefix [TLBrace] ts0" by (rule lex_grow)
  then have ts0: "ts0 \<noteq> []" by auto
  have idle: "m = MIdle"
  proof (rule ccontr)
    assume "m \<noteq> MIdle"
    then obtain nm lit where m: "m = MNum nm lit" "ts = ts0 @ [TNum lit]"
      using ts(1) stA by (cases m) (auto simp: lex_def split: if_splits)
    then have "pstep (foldl pstep (PSt []) ts0) (TNum lit) = PDone u" using ts(2) by simp
    then have "foldl pstep (PSt []) ts0 = PSt []"
      by (cases "foldl pstep (PSt []) ts0") (auto dest: deliver_done)
    then show False using ts0 parse_empty_stack by blast
  qed
  then have tsA: "ts = ts0" using ts(1) stA by (simp add: lex_def)
  obtain B0 where B0: "B = B0 @ ''}''" using B by (cases B rule: rev_cases) auto
  have "foldl lex_step (LSt [] MIdle) (A @ B) = foldl lex_step (LSt (ts @ []) MIdle) B"
    by (simp add: stA idle tsA)
  moreover obtain us m' where X: "foldl lex_step (LSt [] MIdle) B = LSt us m'"
    using tsF(1) stA idle lex_shift_fail[of "[]" MIdle B ts0]
    by (cases "foldl lex_step (LSt [] MIdle) B") (auto simp: lex_def)
  ultimately have full_st: "foldl lex_step (LSt [] MIdle) (A @ B) = LSt (ts @ us) m'"
    using lex_shift[OF X, of ts] by simp
  obtain us' where us': "lex_finish (LSt us m') = Some us'" "tsF = ts @ us'"
    using tsF(1) full_st by (cases m') (auto simp: lex_def split: if_splits)
  have "us' \<noteq> []"
    using lex_brace_token[of "foldl lex_step (LSt [] MIdle) B0" us'] us'(1) X by (simp add: B0)
  moreover have "us' = []"
    using tsF(2) ts(2) us'(2) pstep_after_done by auto
  ultimately show False by simp
qed

subsection \<open>The index section of a saved file\<close>

lemma rtrim_split: "\<exists>w. s = rev (dropWhile P (rev s)) @ w"
proof -
  have "rev s = takeWhile P (rev s) @ dropWhile P (rev s)" by simp
  then have "s = rev (dropWhile P (rev s)) @ rev (takeWhile P (rev s))"
    by (metis rev_append rev_rev_ident)
  then show ?thesis by blast
qed

lemma indexOf_prefix: "indexOf (m @ r) m = Some 0"
  using indexOf_first[of "[]" m r] by simp

lemma last_join: "l \<noteq> [] \<Longrightarrow> join_nl (ls @ [l]) \<noteq> [] \<and> last (join_nl (ls @ [l])) = last l"
  by (induction ls) (auto simp: join_nl_Cons)

lemma take_one: "n \<le> 1 \<Longrightarrow> take n (c # r) = take n [c]"
  by (cases n) auto

lemma index_text_ends:
  "join_nl (pretty (index_json idx) 0) \<noteq> [] \<and> hd (join_nl (pretty (index_json idx) 0)) = CHR ''{''
   \<and> last (join_nl (pretty (index_json idx) 0)) = CHR ''}''"
proof -
  obtain body where b: "pretty (index_json idx) 0 = (''{'' # body) @ [''}'']"
    by (simp add: index_json_def spaces_def)
  have "hd (join_nl ((''{'' # body) @ [''}''])) = CHR ''{''"
    by (simp add: join_nl_Cons)
  then show ?thesis using last_join[of "''}''" "''{'' # body"] unfolding b by simp
qed

lemma fileContent_index:
  "\<exists>R. fileContent idx G
     = INDEX_MARKER_START @ CHR 0x0A # join_nl (pretty (index_json idx) 0) @ CHR 0x0A # INDEX_MARKER_END @ R"
proof -
  have "header_lines idx @ data_lines G
      = INDEX_MARKER_START # (pretty (index_json idx) 0 @ (INDEX_MARKER_END # DATA_MARKER_START # data_lines G))"
    by (simp add: header_lines_def)
  then have "fileContent idx G = INDEX_MARKER_START @ CHR 0x0A # join_nl (pretty (index_json idx) 0)
      @ CHR 0x0A # join_nl (INDEX_MARKER_END # DATA_MARKER_START # data_lines G)"
    unfolding fileContent_lines
    by (simp only: join_nl_Cons join_nl_append pretty_nonempty list.distinct not_False_eq_True
        append_is_Nil_conv simp_thms)
  then show ?thesis by (simp add: join_nl_Cons)
qed

lemma rtrim_id: "s \<noteq> [] \<Longrightarrow> \<not> P (last s) \<Longrightarrow> rev (dropWhile P (rev s)) = s"
  by (cases s rule: rev_cases) auto

lemma JSON_parse_Nil: "JSON_parse [] = None"
  by (simp add: JSON_parse_def lex_def)

lemma trim_nl_Cons: "s \<noteq> [] \<Longrightarrow> \<not> is_js_space (hd s) \<Longrightarrow>
  trim (CHR 0x0A # s) = rev (dropWhile is_js_space (rev s))"
  by (cases s) (auto simp: trim_def is_js_space_def)

theorem index_payload:
  assumes e: "indexOf (fileContent idx G) INDEX_MARKER_END = Some e"
    and lt: "length INDEX_MARKER_START < e"
  shows "JSON_parse (trim (substring (fileContent idx G) (length INDEX_MARKER_START) e)) = None
       \<or> JSON_parse (trim (substring (fileContent idx G) (length INDEX_MARKER_START) e))
           = Some (parsed (index_json idx))"
proof -
  let ?P = "join_nl (pretty (index_json idx) 0)"
  let ?n = "length INDEX_MARKER_START"
  obtain R where F: "fileContent idx G
      = INDEX_MARKER_START @ CHR 0x0A # ?P @ CHR 0x0A # INDEX_MARKER_END @ R"
    using fileContent_index by blast
  have P: "?P \<noteq> []" "hd ?P = CHR ''{''" "last ?P = CHR ''}''" using index_text_ends by auto
  have full: "JSON_parse ?P = Some (parsed (index_json idx))"
    by (rule JSON_parse_pretty) simp
  have "fileContent idx G = (INDEX_MARKER_START @ CHR 0x0A # ?P @ [CHR 0x0A]) @ INDEX_MARKER_END @ R"
    by (simp add: F)
  then obtain e' where "indexOf (fileContent idx G) INDEX_MARKER_END = Some e'"
      "e' \<le> length (INDEX_MARKER_START @ CHR 0x0A # ?P @ [CHR 0x0A])"
    using indexOf_first[of "INDEX_MARKER_START @ CHR 0x0A # ?P @ [CHR 0x0A]" INDEX_MARKER_END R]
    by auto
  then have le: "e \<le> ?n + length ?P + 2" using e by simp
  define k where "k = e - ?n - 1"
  have k: "e - ?n = Suc k" "k \<le> length ?P + 1" using lt le by (auto simp: k_def)
  have d: "drop ?n (fileContent idx G) = CHR 0x0A # ?P @ CHR 0x0A # INDEX_MARKER_END @ R"
    by (subst F) simp
  have "substring (fileContent idx G) ?n e = take (Suc k) (drop ?n (fileContent idx G))"
    using lt k(1) by (simp add: substring_def)
  also have "\<dots> = CHR 0x0A # take k (?P @ CHR 0x0A # INDEX_MARKER_END @ R)"
    by (simp only: d take_Suc_Cons)
  also have "take k (?P @ CHR 0x0A # INDEX_MARKER_END @ R) = take k (?P @ [CHR 0x0A])"
    using k(2) by (simp add: take_one[of _ _ "INDEX_MARKER_END @ R"])
  finally have sub: "substring (fileContent idx G) ?n e = CHR 0x0A # take k (?P @ [CHR 0x0A])" .
  show ?thesis
  proof (cases "length ?P \<le> k")
    case True
    then have "take k (?P @ [CHR 0x0A]) = ?P \<or> take k (?P @ [CHR 0x0A]) = ?P @ [CHR 0x0A]"
      using k(2) by (cases "k = length ?P") auto
    moreover have "rev (dropWhile is_js_space (rev ?P)) = ?P"
      using P by (intro rtrim_id) simp_all
    moreover have "is_js_space CHR 0x0A" by (simp add: is_js_space_def)
    ultimately have "trim (CHR 0x0A # take k (?P @ [CHR 0x0A])) = ?P"
      using P by (auto simp: trim_nl_Cons)
    then show ?thesis using full sub by simp
  next
    case False
    then have tk: "take k (?P @ [CHR 0x0A]) = take k ?P" by simp
    let ?Q = "take k ?P"
    have PQ: "?P = ?Q @ drop k ?P" "drop k ?P \<noteq> []" using False by auto
    show ?thesis
    proof (cases "k = 0")
      case True
      then show ?thesis using sub tk by (simp add: trim_def is_js_space_def JSON_parse_Nil)
    next
      case k0: False
      then have Q: "?Q \<noteq> []" "hd ?Q = CHR ''{''" using P by (auto simp: hd_take)
      let ?A = "rev (dropWhile is_js_space (rev ?Q))"
      have tr: "trim (CHR 0x0A # ?Q) = ?A" using Q by (intro trim_nl_Cons) simp_all
      obtain w where w: "?Q = ?A @ w" using rtrim_split by blast
      have A: "?A \<noteq> []" "hd ?A = CHR ''{''"
      proof -
        obtain q where q: "?Q = CHR ''{'' # q" using Q by (cases ?Q) auto
        have "dropWhile is_js_space (rev q @ ''{'') = dropWhile is_js_space (rev q) @ ''{''
            \<or> dropWhile is_js_space (rev q @ ''{'') = ''{''"
          by (auto simp: dropWhile_append is_js_space_def)
        then show "?A \<noteq> []" "hd ?A = CHR ''{''" by (auto simp: q)
      qed
      have "?P = ?A @ (w @ drop k ?P)" using PQ(1) w by (metis append.assoc)
      moreover have "last (w @ drop k ?P) = CHR ''}''" using PQ P(3) by (metis last_appendR)
      ultimately have "JSON_parse ?A = None"
        using cut_not_parsed[of ?A "w @ drop k ?P"] full PQ(2) A by simp
      then show ?thesis using sub tk tr by simp
    qed
  qed
qed

subsection \<open>Storage operations on a working disk\<close>

lemma read_saved: "read_data (fileContent idx G) = Inr G"
  using data_marker_found[of idx G] parse_saved[of idx G] by (auto simp: read_data_def)

lemma collect_err: "collect_items its = Inl e \<Longrightarrow> e = IllTyped"
  by (induction its arbitrary: e) (auto split: sum.splits item.splits)

lemma parseLegacy_err: "parseLegacyFormat d = Inl e \<Longrightarrow> e = IllTyped"
  unfolding parseLegacyFormat_def by (rule collect_err)

lemma read_data_err: "read_data d = Inl e \<Longrightarrow> e = IllTyped"
  by (auto simp: read_data_def parseLegacy_err split: option.splits)

lemma save_ok:
  "disk_ok s \<Longrightarrow> saveIndexAndData G s
     = (Inr (), s\<lparr>files := (files s)(memoryFilePath s \<mapsto> fileContent (indexStructure s) G)\<rparr>)"
  by (simp add: saveIndexAndData_def fs_writeFile_def)

lemma build_save_ok:
  "disk_ok s \<Longrightarrow> saveIndexAndData G (buildIndexFromGraph G s)
     = (Inr (), s\<lparr>indexStructure := index_of_graph G (now s),
          files := (files s)(memoryFilePath s \<mapsto> fileContent (index_of_graph G (now s)) G)\<rparr>)"
  by (simp add: save_ok buildIndexFromGraph_def)

lemma migrate_ok:
  assumes "disk_ok s" "parseLegacyFormat data = Inr G"
  shows "migrateFromLegacyFormat data s
     = (Inr (index_of_graph G (now s)), s\<lparr>indexStructure := index_of_graph G (now s),
          files := (files s)(memoryFilePath s \<mapsto> fileContent (index_of_graph G (now s)) G)\<rparr>)"
  using assms by (simp add: migrateFromLegacyFormat_def bindE_def lift_def build_save_ok)

lemma migrate_ill:
  assumes "parseLegacyFormat data = Inl e"
  shows "migrateFromLegacyFormat data s = (Inl IllTyped, s)"
  using assms parseLegacy_err[OF assms] by (simp add: migrateFromLegacyFormat_def bindE_def lift_def)

lemma rebuild_ok:
  assumes "disk_ok s" "files s (memoryFilePath s) = Some c" "read_data c = Inr G"
  shows "rebuildIndex s
     = (Inr (index_of_graph G (now s)), s\<lparr>indexStructure := index_of_graph G (now s),
          files := (files s)(memoryFilePath s \<mapsto> fileContent (index_of_graph G (now s)) G),
          isIndexLoaded := (isIndexLoaded s \<or> indexOf c DATA_MARKER_START \<noteq> None)\<rparr>)"
proof (cases "indexOf c DATA_MARKER_START")
  case None
  then have "parseLegacyFormat c = Inr G" using assms(3) by (simp add: read_data_def)
  then show ?thesis using assms(1,2) None
    by (simp add: rebuildIndex_def fs_readFile_def bindE_def catchE_def migrate_ok)
next
  case (Some p)
  then have "parseLegacyFormat (trim (substring_from c (p + length DATA_MARKER_START))) = Inr G"
    using assms(3) by (simp add: read_data_def)
  then show ?thesis using assms(1,2) Some
    by (simp add: rebuildIndex_def fs_readFile_def bindE_def catchE_def lift_def build_save_ok Let_def)
qed

lemma rebuild_ill:
  assumes "files s (memoryFilePath s) = Some c" "read_data c = Inl e"
  shows "rebuildIndex s = (Inl IllTyped, s)"
proof (cases "indexOf c DATA_MARKER_START")
  case None
  then have "parseLegacyFormat c = Inl e" using assms(2) by (simp add: read_data_def)
  then show ?thesis using assms(1) None
    by (simp add: rebuildIndex_def fs_readFile_def bindE_def catchE_def migrate_ill)
next
  case (Some p)
  then have "parseLegacyFormat (trim (substring_from c (p + length DATA_MARKER_START))) = Inl IllTyped"
    using assms(2) parseLegacy_err by (auto simp: read_data_def)
  then show ?thesis using assms(1) Some
    by (simp add: rebuildIndex_def fs_readFile_def bindE_def catchE_def lift_def)
qed

subsection \<open>loadIndex\<close>

lemma same_env_refl [simp]: "same_env s s"
  by (simp add: same_env_def)

lemma same_env_trans: "same_env s s1 \<Longrightarrow> same_env s1 s2 \<Longrightarrow> same_env s s2"
  by (simp add: same_env_def)

lemma same_env_upd [simp]:
  "same_env s (s\<lparr>indexStructure := i\<rparr>)" "same_env s (s\<lparr>files := f\<rparr>)"
  "same_env s (s\<lparr>isIndexLoaded := b\<rparr>)"
  "same_env s (s\<lparr>indexStructure := i, files := f\<rparr>)"
  "same_env s (s\<lparr>indexStructure := i, isIndexLoaded := b\<rparr>)"
  "same_env s (s\<lparr>files := f, isIndexLoaded := b\<rparr>)"
  "same_env s (s\<lparr>indexStructure := i, files := f, isIndexLoaded := b\<rparr>)"
  by (simp_all add: same_env_def)

lemma saved_markers:
  "indexOf (fileContent idx G) INDEX_MARKER_START = Some 0"
  "\<exists>e. indexOf (fileContent idx G) INDEX_MARKER_END = Some e"
  "indexOf (fileContent idx G) DATA_MARKER_START \<noteq> None"
proof -
  obtain R where F: "fileContent idx G
      = INDEX_MARKER_START @ CHR 0x0A # join_nl (pretty (index_json idx) 0) @ CHR 0x0A # INDEX_MARKER_END @ R"
    using fileContent_index by blast
  show "indexOf (fileContent idx G) INDEX_MARKER_START = Some 0"
    unfolding F by (rule indexOf_prefix)
  have "fileContent idx G = (INDEX_MARKER_START @ CHR 0x0A # join_nl (pretty (index_json idx) 0) @ [CHR 0x0A])
      @ INDEX_MARKER_END @ R" by (simp add: F)
  then show "\<exists>e. indexOf (fileContent idx G) INDEX_MARKER_END = Some e"
    using indexOf_first[of _ INDEX_MARKER_END R] by metis
  show "indexOf (fileContent idx G) DATA_MARKER_START \<noteq> None"
    using data_marker_found[of idx G] by auto
qed

lemma parse_index_saved:
  assumes "disk_ok s" "files s (memoryFilePath s) = Some (fileContent idx G)"
  shows "parse_index_section (fileContent idx G) s = (Inr (reloaded idx), index_parsed idx s)
       \<or> parse_index_section (fileContent idx G) s
           = (Inr (index_of_graph G (now s)), index_rebuilt G s)"
proof -
  let ?F = "fileContent idx G"
  have rb: "rebuildIndex s = (Inr (index_of_graph G (now s)), index_rebuilt G s)"
    using rebuild_ok[OF assms read_saved] saved_markers(3)[of idx G]
    by (simp add: index_rebuilt_def)
  obtain e where e: "indexOf ?F INDEX_MARKER_END = Some e" using saved_markers(2) by blast
  show ?thesis
  proof (cases "length INDEX_MARKER_START < e")
    case False
    then show ?thesis using e rb
      by (simp add: parse_index_section_def saved_markers(1) Let_def)
  next
    case True
    from index_payload[OF e True] show ?thesis
    proof
      assume "JSON_parse (trim (substring ?F (length INDEX_MARKER_START) e)) = None"
      then show ?thesis using e rb True
        by (simp add: parse_index_section_def saved_markers(1) Let_def)
    next
      assume "JSON_parse (trim (substring ?F (length INDEX_MARKER_START) e))
          = Some (parsed (index_json idx))"
      then show ?thesis using e True
        by (simp add: parse_index_section_def saved_markers(1) Let_def decode_index_json
            index_parsed_def)
    qed
  qed
qed

lemma loadIndex_saved:
  assumes "disk_ok s" "\<not> isIndexLoaded s" "files s (memoryFilePath s) = Some (fileContent idx G)"
  shows "loadIndex s = (Inr (reloaded idx), index_parsed idx s)
       \<or> loadIndex s = (Inr (index_of_graph G (now s)), index_rebuilt G s)"
proof -
  have inc: "str_includes (fileContent idx G) INDEX_MARKER_START"
    by (simp add: str_includes_def saved_markers(1))
  have "loadIndex s = catchE (parse_index_section (fileContent idx G) s)
      (\<lambda>s. let s' = s\<lparr>indexStructure := createEmptyIndex (now s)\<rparr> in (Inr (indexStructure s'), s'))"
    using assms(2,3) inc by (simp add: loadIndex_def fs_access_def fs_readFile_def bindE_def)
  then show ?thesis using parse_index_saved[OF assms(1,3)] by (auto simp: catchE_def)
qed

subsection \<open>loadFullGraph\<close>

lemma loadFullGraph_read:
  "loadFullGraph s =
     catchE (bindE (loadIndex s) (\<lambda>_ s. bindE (fs_readFile s) (\<lambda>data s. lift (read_data data) s)))
       (\<lambda>s. (Inr empty_graph, s))"
proof -
  have "(case indexOf data DATA_MARKER_START of
            None \<Rightarrow> lift (parseLegacyFormat data) s
          | Some p \<Rightarrow> lift (parseLegacyFormat
                      (trim (substring_from data (p + length DATA_MARKER_START)))) s)
      = lift (read_data data) s" for data s
    by (simp add: read_data_def split: option.splits)
  then show ?thesis by (simp add: loadFullGraph_def)
qed

lemma loadFullGraph_loaded:
  assumes "isIndexLoaded s" "good s G"
  shows "loadFullGraph s = (Inr G, s)"
proof (cases "files s (memoryFilePath s)")
  case None
  then show ?thesis using assms
    by (simp add: loadFullGraph_read loadIndex_def bindE_def fs_readFile_def catchE_def good_def)
next
  case (Some c)
  then show ?thesis using assms
    by (simp add: loadFullGraph_read loadIndex_def bindE_def fs_readFile_def catchE_def good_def lift_def)
qed

lemma good_after_saved_load:
  "good (index_parsed idx s) G \<longleftrightarrow>
     (case files s (memoryFilePath s) of None \<Rightarrow> G = empty_graph | Some c \<Rightarrow> read_data c = Inr G)"
  "good (index_rebuilt G s) G"
  by (simp_all add: good_def index_parsed_def index_rebuilt_def read_saved)

lemma loadIndex_good:
  assumes "disk_ok s" "good s G"
  shows "\<exists>s'. loadIndex s = (Inr (indexStructure s'), s') \<and> isIndexLoaded s' \<and> good s' G \<and> same_env s s'"
proof (cases "isIndexLoaded s")
  case True
  then show ?thesis using assms by (auto simp: loadIndex_def)
next
  case False
  then obtain idx where f: "files s (memoryFilePath s) = Some (fileContent idx G)"
    using assms(2) by (auto simp: good_def)
  from loadIndex_saved[OF assms(1) False f] show ?thesis
  proof
    assume "loadIndex s = (Inr (reloaded idx), index_parsed idx s)"
    moreover have "good (index_parsed idx s) G" by (simp add: good_after_saved_load f read_saved)
    ultimately show ?thesis by (auto simp: index_parsed_def)
  next
    assume "loadIndex s = (Inr (index_of_graph G (now s)), index_rebuilt G s)"
    moreover have "good (index_rebuilt G s) G" by (rule good_after_saved_load)
    ultimately show ?thesis by (auto simp: index_rebuilt_def)
  qed
qed

lemma ensureIndex_good:
  assumes "disk_ok s" "good s G"
  shows "\<exists>s'. ensureIndex s = (Inr (), s') \<and> isIndexLoaded s' \<and> good s' G \<and> same_env s s'"
proof (cases "isIndexLoaded s")
  case True
  then show ?thesis using assms by (auto simp: ensureIndex_def)
next
  case False
  obtain s' where "loadIndex s = (Inr (indexStructure s'), s')" "isIndexLoaded s'" "good s' G" "same_env s s'"
    using loadIndex_good[OF assms] by blast
  then show ?thesis using False by (auto simp: ensureIndex_def bindE_def)
qed

theorem loadFullGraph_good:
  assumes "disk_ok s" "good s G"
  shows "\<exists>s'. loadFullGraph s = (Inr G, s') \<and> isIndexLoaded s' \<and> good s' G \<and> same_env s s'"
proof -
  obtain s' where l: "loadIndex s = (Inr (indexStructure s'), s')" "isIndexLoaded s'" "good s' G"
      "same_env s s'"
    using loadIndex_good[OF assms] by blast
  have "loadFullGraph s' = (Inr G, s')" using l(2,3) by (rule loadFullGraph_loaded)
  then have "catchE (bindE (fs_readFile s') (\<lambda>data s. lift (read_data data) s)) (\<lambda>s. (Inr empty_graph, s))
      = (Inr G, s')"
    using l(2) by (simp add: loadFullGraph_read loadIndex_def bindE_def)
  then have "loadFullGraph s = (Inr G, s')"
    by (simp add: loadFullGraph_read l(1) bindE_def)
  then show ?thesis using l by blast
qed

section \<open>Round trip\<close>

text \<open>
  Claim C1: for every knowledge graph \<open>G\<close>, the empty one included, saving \<open>G\<close> with
  \<open>saveIndexAndData\<close> and then calling \<open>loadFullGraph\<close> on the resulting file yields
  \<open>G\<close>: the same entities (with equal types and observation lists) and the same
  relations, hence the same sets.  This holds in every state of the manager whose disk
  accepts the write, whatever index is cached and whether or not it counts as loaded; a
  marker text inside a name does not disturb it.
\<close>

theorem C1_save_then_load:
  assumes "disk_ok s"
  shows "fst (saveIndexAndData G s) = Inr () \<and>
         fst (loadFullGraph (snd (saveIndexAndData G s))) = Inr G"
proof -
  let ?s1 = "s\<lparr>files := (files s)(memoryFilePath s \<mapsto> fileContent (indexStructure s) G)\<rparr>"
  have sv: "saveIndexAndData G s = (Inr (), ?s1)" using assms by (rule save_ok)
  have "good ?s1 G" by (auto simp: good_def read_saved)
  moreover have "disk_ok ?s1" using assms by simp
  ultimately obtain s' where "loadFullGraph ?s1 = (Inr G, s')"
    using loadFullGraph_good by blast
  then show ?thesis by (simp add: sv)
qed

theorem C1_save_then_load_witness:
  "disk_ok (new_StorageManager ''m.json'' (\<lambda>_. None) ''T0'' True) \<and>
   fst (loadFullGraph (snd (saveIndexAndData ex_graph2
          (new_StorageManager ''m.json'' (\<lambda>_. None) ''T0'' True)))) = Inr ex_graph2"
  using C1_save_then_load[of "new_StorageManager ''m.json'' (\<lambda>_. None) ''T0'' True" ex_graph2]
  by (simp add: new_StorageManager_def)

section \<open>Recovery from an unreadable index\<close>

text \<open>
  Claim C2: when the file holds the start marker and its index payload cannot be used (the
  end marker is missing or does not come after the start marker, or the text between the
  markers does not parse as JSON), \<open>loadIndex\<close>, reading the file, raises no error: it
  is the call of \<open>rebuildIndex\<close>, and with a data section that reads as the graph \<open>G\<close>
  it returns the index built from \<open>G\<close>.  The disk is assumed to accept the write of the
  rebuilt file.
\<close>

theorem C2_unreadable_index_is_rebuilt:
  assumes "disk_ok s" "\<not> isIndexLoaded s" "files s (memoryFilePath s) = Some data"
    and "str_includes data INDEX_MARKER_START" "index_unreadable data"
    and "read_data data = Inr G"
  shows "loadIndex s = rebuildIndex s \<and> fst (loadIndex s) = Inr (index_of_graph G (now s))"
proof -
  have p: "parse_index_section data s = rebuildIndex s"
    using assms(5)
    by (auto simp: parse_index_section_def index_unreadable_def Let_def split: option.splits)
  have rb: "fst (rebuildIndex s) = Inr (index_of_graph G (now s))"
    using rebuild_ok[OF assms(1,3,6)] by simp
  have "loadIndex s = catchE (rebuildIndex s)
      (\<lambda>s. let s' = s\<lparr>indexStructure := createEmptyIndex (now s)\<rparr> in (Inr (indexStructure s'), s'))"
    using assms(2,3,4) p by (simp add: loadIndex_def fs_access_def fs_readFile_def bindE_def)
  then have "loadIndex s = rebuildIndex s"
    using rb by (cases "rebuildIndex s") (auto simp: catchE_def)
  then show ?thesis using rb by simp
qed

theorem C2_unreadable_index_is_rebuilt_witness:
  "index_unreadable ex_corrupt \<and> read_data ex_corrupt = Inr ex_graph1 \<and>
   loadIndex (new_StorageManager ''m.json'' ((\<lambda>_. None)(''m.json'' \<mapsto> ex_corrupt)) ''T1'' True)
     = rebuildIndex (new_StorageManager ''m.json'' ((\<lambda>_. None)(''m.json'' \<mapsto> ex_corrupt)) ''T1'' True) \<and>
   fst (loadIndex (new_StorageManager ''m.json'' ((\<lambda>_. None)(''m.json'' \<mapsto> ex_corrupt)) ''T1'' True))
     = Inr (index_of_graph ex_graph1 ''T1'')"
proof -
  let ?s = "new_StorageManager ''m.json'' ((\<lambda>_. None)(''m.json'' \<mapsto> ex_corrupt)) ''T1'' True"
  have u: "index_unreadable ex_corrupt" by code_simp
  have r: "read_data ex_corrupt = Inr ex_graph1" by code_simp
  have i: "str_includes ex_corrupt INDEX_MARKER_START" by code_simp
  have h: "disk_ok ?s" "\<not> isIndexLoaded ?s" "files ?s (memoryFilePath ?s) = Some ex_corrupt"
    "now ?s = ''T1''"
    by (simp_all add: new_StorageManager_def)
  note c = C2_unreadable_index_is_rebuilt[OF h(1) h(2) h(3) i u r, unfolded h(4)]
  show ?thesis using u r c by blast
qed

section \<open>Search\<close>

text \<open>
  Claim C3 (a query of one term matches the name, the type or an observation of an
  entity).  The tool description of \<^verbatim>\<open>search_nodes\<close> and \<open>legacySearchNodes\<close> say so;
  \<open>searchNodes\<close> sends a query of one term to \<open>searchEntitiesByName\<close>, which looks at
  the names only.  In the stored graph of the one entity Alice, of type person, the query
  \<^verbatim>\<open>person\<close> matches Alice under the three-field rule and \<open>searchNodes\<close> returns no
  entity.
\<close>

theorem C3_single_term_search_ignores_type:
  "matches_term ''person'' ex_alice \<and>
   fst (searchNodes ''person'' (stored ex_graph1 ''T0'' True))
     = Inr \<lparr>entities = [], relations = []\<rparr>"
  by code_simp

theorem C3_single_term_search_ignores_type_witness:
  "fst (searchNodes ''person'' (stored ex_graph1 ''T0'' True)) \<noteq> Inr ex_graph1"
  using C3_single_term_search_ignores_type by (simp add: ex_graph1_def)

text \<open>
  Claim C4 (a query \<^verbatim>\<open>type T\<close> returns exactly the entities of type \<open>T\<close> and the
  relations between them).  The branch of \<open>searchNodes\<close> for such a query comes after
  the test of the four regular expressions, and \<^verbatim>\<open>/type\s+(\w+)/i\<close> matches the query
  itself: the relation-first branch answers.  For the stored graph of Alice (a person), Bob
  (a robot) and the relation Alice--personal-->Bob, the query \<^verbatim>\<open>type person\<close> returns
  both entities and the relation, where the entities of type person are Alice alone.
\<close>

theorem C4_type_query_takes_relation_branch:
  "fst (searchNodes ''type person'' (stored ex_graph2 ''T0'' True))
     = Inr \<lparr>entities = [ex_alice, ex_bob], relations = [ex_personal]\<rparr>"
  by code_simp

theorem C4_type_query_takes_relation_branch_witness:
  "fst (searchNodes ''type person'' (stored ex_graph2 ''T0'' True))
     \<noteq> Inr \<lparr>entities = [ex_alice], relations = []\<rparr>"
  using C4_type_query_takes_relation_branch by simp

section \<open>A failed write\<close>

text \<open>
  Claim C6 (after a write that fails, the cached index does not describe the graph that was
  not written).  \<open>updateEntity\<close> replaces the cached index before it writes.  With a disk
  that refuses the write, adding Bob to the stored graph of Alice fails with an I/O error and
  leaves the file as it was, and the next \<open>loadIndex\<close> returns an index that lists Bob.
\<close>

theorem C6_failed_write_leaves_new_index_cached:
  "(let r = updateEntity ex_bob (stored ex_graph1 ''T0'' False) in
     fst r = Inl IOError \<and>
     files (snd r) ''m.json'' = files (stored ex_graph1 ''T0'' False) ''m.json'' \<and>
     map_option (\<lambda>i. map fst (entityIndices i)) (index_of_result (loadIndex (snd r)))
       = Some [''Alice'', ''Bob''])"
  by code_simp

theorem C6_failed_write_leaves_new_index_cached_witness:
  "fst (updateEntity ex_bob (stored ex_graph1 ''T0'' False)) = Inl IOError"
  using C6_failed_write_leaves_new_index_cached by (simp add: Let_def)

section \<open>Observations\<close>

text \<open>
  Claim C8 (adding observations keeps the observations of an entity free of duplicates,
  also when the input repeats a string).  \<open>addObservations\<close> filters the input against
  the stored observations only: adding \<^verbatim>\<open>["b", "b"]\<close> to Alice, whose observations are
  \<^verbatim>\<open>["tea"]\<close>, reports both and stores \<^verbatim>\<open>["tea", "b", "b"]\<close>.
\<close>

theorem C8_repeated_input_is_stored_twice:
  "(let r = addObservations [\<lparr>entityName = ''Alice'', contents = [''b'', ''b'']\<rparr>]
              (stored ex_graph1 ''T0'' True) in
     fst r = Inr [\<lparr>res_entityName = ''Alice'', addedObservations = [''b'', ''b'']\<rparr>] \<and>
     fst (loadFullGraph (snd r))
       = Inr \<lparr>entities = [ex_alice\<lparr>observations := [''tea'', ''b'', ''b'']\<rparr>], relations = []\<rparr>)"
  by code_simp

theorem C8_repeated_input_is_stored_twice_witness:
  "fst (addObservations [\<lparr>entityName = ''Alice'', contents = [''b'', ''b'']\<rparr>]
          (stored ex_graph1 ''T0'' True))
     = Inr [\<lparr>res_entityName = ''Alice'', addedObservations = [''b'', ''b'']\<rparr>]"
  using C8_repeated_input_is_stored_twice by (simp add: Let_def)


end
